theory Spec2Isabelle
  imports Main "HOL-Library.Sublist"
begin

text \<open>
  A model of \<open>question_4_genai/GenAI.py\<close>: the agent that turns a question about a table
  of adverse events into a column and a filter value (\<open>parse_question\<close>, with the
  collaborator behind \<open>_call_llm\<close> and the matcher \<open>_mock_llm\<close>), and \<open>execute\<close>, which
  answers such a query on the table. Functions of Python's library (\<open>str\<close>, \<open>re\<close>, \<open>json\<close>)
  and of pandas are modelled as far as the program uses them; an exception is a value
  \<open>Inl e\<close> of the result.
\<close>

section \<open>Text primitives of the Python runtime\<close>

text \<open>
  A Python \<open>str\<close> that the program is given (a question, a cell of the table, the answer
  of the collaborator) is modelled as a \<open>string\<close>: a list of characters, each one of the 256
  code points below U+0100. On these code points \<open>str.lower\<close> works character by
  character: it moves A-Z and the capital letters of the upper half (U+00C0 to U+00DE
  without the multiplication sign U+00D7) up by 32 and leaves every other character.
\<close>

definition lower_char :: "char \<Rightarrow> char" where
  "lower_char c =
     (let n = (of_char c :: nat)
      in if (65 \<le> n \<and> n \<le> 90) \<or> (192 \<le> n \<and> n \<le> 222 \<and> n \<noteq> 215)
         then char_of (n + 32) else c)"

definition lower :: "string \<Rightarrow> string" where
  "lower s = map lower_char s"

text \<open>\<open>str.isspace\<close> on one character, and \<open>str.strip()\<close> with no argument.\<close>

definition is_space :: "char \<Rightarrow> bool" where
  "is_space c =
     (let n = (of_char c :: nat)
      in (9 \<le> n \<and> n \<le> 13) \<or> (28 \<le> n \<and> n \<le> 32) \<or> n = 133 \<or> n = 160)"

definition strip :: "string \<Rightarrow> string" where
  "strip s = rev (dropWhile is_space (rev (dropWhile is_space s)))"

text \<open>
  A text that \<open>json.loads\<close> decodes may hold any code point, by way of an escape
  \<open>\uXXXX\<close>. Such a text is a list of code points, and \<open>ustr\<close> reads a \<open>string\<close> as one.
  \<open>is_uspace\<close> is \<open>str.isspace\<close> on one code point and \<open>ustrip\<close> is \<open>str.strip()\<close> on such a
  text.
\<close>

type_synonym ustring = "int list"

definition ustr :: "string \<Rightarrow> ustring" where
  "ustr s = map of_char s"

definition is_uspace :: "int \<Rightarrow> bool" where
  "is_uspace n =
     ((9 \<le> n \<and> n \<le> 13) \<or> (28 \<le> n \<and> n \<le> 32) \<or> n = 133 \<or> n = 160 \<or> n = 5760
      \<or> (8192 \<le> n \<and> n \<le> 8202) \<or> n = 8232 \<or> n = 8233 \<or> n = 8239 \<or> n = 8287
      \<or> n = 12288)"

definition ustrip :: "ustring \<Rightarrow> ustring" where
  "ustrip s = rev (dropWhile is_uspace (rev (dropWhile is_uspace s)))"

text \<open>The operator \<open>a in b\<close> on two strings: \<open>a\<close> occurs in \<open>b\<close> as a contiguous run.\<close>

fun str_in :: "string \<Rightarrow> string \<Rightarrow> bool" where
  "str_in a [] = (a = [])"
| "str_in a (c # cs) = (prefix a (c # cs) \<or> str_in a cs)"

text \<open>\<open>" ".join(xs)\<close>.\<close>

fun join_sp :: "string list \<Rightarrow> string" where
  "join_sp [] = []"
| "join_sp [x] = x"
| "join_sp (x # y # ys) = x @ '' '' @ join_sp (y # ys)"

text \<open>
  \<open>re.findall\<close> of a pattern \<open>[...]+\<close>: the maximal runs of characters of the class, from
  left to right. The run being read is kept reversed in the accumulator.
\<close>

fun runs :: "(char \<Rightarrow> bool) \<Rightarrow> string \<Rightarrow> string \<Rightarrow> string list" where
  "runs p acc [] = (if acc = [] then [] else [rev acc])"
| "runs p acc (c # cs) =
     (if p c then runs p (c # acc) cs
      else (if acc = [] then [] else [rev acc]) @ runs p [] cs)"

definition is_lower_alnum :: "char \<Rightarrow> bool" where
  "is_lower_alnum c =
     (let n = (of_char c :: nat) in (97 \<le> n \<and> n \<le> 122) \<or> (48 \<le> n \<and> n \<le> 57))"

definition is_alnum :: "char \<Rightarrow> bool" where
  "is_alnum c =
     (let n = (of_char c :: nat)
      in (65 \<le> n \<and> n \<le> 90) \<or> (97 \<le> n \<and> n \<le> 122) \<or> (48 \<le> n \<and> n \<le> 57))"

text \<open>\<open>re.findall(r"[a-z0-9]+", s)\<close> and \<open>re.findall(r"[A-Za-z0-9]+", s)\<close>.\<close>

definition findall_lower_alnum :: "string \<Rightarrow> string list" where
  "findall_lower_alnum s = runs is_lower_alnum [] s"

definition findall_alnum :: "string \<Rightarrow> string list" where
  "findall_alnum s = runs is_alnum [] s"

text \<open>
  \<open>re.escape\<close> puts a backslash before each character of its table of special characters
  and copies every other character.
\<close>

definition re_special :: "char \<Rightarrow> bool" where
  "re_special c =
     (c \<in> set ''()[]{}?*+-|^$.&~# '' \<or> (of_char c :: nat) \<in> {92, 9, 10, 11, 12, 13})"

fun re_escape :: "string \<Rightarrow> string" where
  "re_escape [] = []"
| "re_escape (c # cs) = (if re_special c then CHR 0x5C # c # re_escape cs else c # re_escape cs)"

text \<open>
  The patterns \<open>execute\<close> compiles are outputs of \<open>re.escape\<close>. The compiler of the model
  reads the two forms such a pattern is made of: a backslash followed by a character that
  is no ASCII letter or digit, which stands for that character, and a character outside
  the table of special characters, which stands for itself. On any other pattern it
  gives \<open>None\<close>.
\<close>

fun re_literal :: "string \<Rightarrow> string option" where
  "re_literal [] = Some []"
| "re_literal [c] = (if re_special c then None else Some [c])"
| "re_literal (c # d # cs) =
     (if c = CHR 0x5C then
        (if is_alnum d then None else map_option ((#) d) (re_literal cs))
      else if re_special c then None
      else map_option ((#) c) (re_literal (d # cs)))"

text \<open>
  A search for a compiled literal with \<open>re.IGNORECASE\<close>: at some position the text
  continues with characters that agree with the literal up to case.
\<close>

fun match_here_ci :: "string \<Rightarrow> string \<Rightarrow> bool" where
  "match_here_ci [] t = True"
| "match_here_ci (p # ps) [] = False"
| "match_here_ci (p # ps) (c # cs) = (lower_char p = lower_char c \<and> match_here_ci ps cs)"

fun search_ci :: "string \<Rightarrow> string \<Rightarrow> bool" where
  "search_ci lit [] = match_here_ci lit []"
| "search_ci lit (c # cs) = (match_here_ci lit (c # cs) \<or> search_ci lit cs)"

section \<open>The dataset\<close>

text \<open>
  A cell of the frame is missing (\<open>None\<close>) or holds a value, kept as the text that
  \<open>astype(str)\<close> gives for it. A row has the five columns of \<open>SCHEMA\<close>.
\<close>

type_synonym cell = "string option"

record row =
  USUBJID :: cell
  AETERM :: cell
  AESOC :: cell
  AESEV :: cell
  AEDECOD :: cell

type_synonym frame = "row list"

text \<open>
  The exceptions of the program. \<open>LLMError\<close> stands for whatever the collaborator's client
  raises. \<open>OutOfFuel\<close> is an outcome of the model only, given when the JSON reader uses up
  its step budget (\<open>json_loads_fuel\<close> below shows that the budget of \<open>json_loads\<close> is never
  used up).
\<close>

datatype error =
  KeyError | ReError | JSONDecodeError | AttributeError | LLMError | OutOfFuel

text \<open>\<open>df[name]\<close>: the column of that name, a \<open>KeyError\<close> for any other name.\<close>

definition column :: "string \<Rightarrow> (row \<Rightarrow> cell) option" where
  "column name =
     (if name = ''USUBJID'' then Some USUBJID
      else if name = ''AETERM'' then Some AETERM
      else if name = ''AESOC'' then Some AESOC
      else if name = ''AESEV'' then Some AESEV
      else if name = ''AEDECOD'' then Some AEDECOD
      else None)"

text \<open>
  \<open>astype(str)\<close> on a cell: a missing value becomes the text \<open>nan\<close> (pandas before 3.0,
  where the result is a column of Python strings with no missing value left in it).
\<close>

definition as_str :: "cell \<Rightarrow> string" where
  "as_str c = (case c of None \<Rightarrow> ''nan'' | Some s \<Rightarrow> s)"

text \<open>\<open>dropna().astype(str)\<close> on a column: the texts of the cells that are not missing.\<close>

definition dropna_str :: "cell list \<Rightarrow> string list" where
  "dropna_str cs = map the (filter (\<lambda>c. c \<noteq> None) cs)"

text \<open>\<open>unique()\<close> keeps the first occurrence of each value, in order of appearance.\<close>

fun unique :: "'a list \<Rightarrow> 'a list" where
  "unique [] = []"
| "unique (x # xs) = x # unique (filter (\<lambda>y. y \<noteq> x) xs)"

section \<open>The query executor\<close>

text \<open>
  The mask of \<open>execute\<close>, one truth value per row. \<open>s\<close> is the target column as text,
  \<open>uniq\<close> the lowercased texts of its cells that are not missing.
\<close>

definition mask :: "frame \<Rightarrow> string \<Rightarrow> string \<Rightarrow> error + bool list" where
  "mask df target_column filter_value =
     (case column target_column of
        None \<Rightarrow> Inl KeyError
      | Some col \<Rightarrow>
          (let s = map (\<lambda>r. as_str (col r)) df;
               uniq = set (map lower (dropna_str (map col df)))
           in if lower filter_value \<in> uniq
              then Inr (map (\<lambda>t. lower t = lower filter_value) s)
              else (case re_literal (re_escape filter_value) of
                      None \<Rightarrow> Inl ReError
                    | Some lit \<Rightarrow> Inr (map (\<lambda>t. search_ci lit t) s))))"

text \<open>\<open>df.loc[mask]\<close>: the rows whose entry of the mask is true.\<close>

definition loc :: "frame \<Rightarrow> bool list \<Rightarrow> frame" where
  "loc df m = map fst (filter snd (zip df m))"

definition execute :: "frame \<Rightarrow> string \<Rightarrow> string \<Rightarrow> error + (nat \<times> string list)" where
  "execute df target_column filter_value =
     (case mask df target_column filter_value of
        Inl e \<Rightarrow> Inl e
      | Inr m \<Rightarrow>
          (let usubjids = unique (dropna_str (map USUBJID (loc df m)))
           in Inr (length usubjids, usubjids)))"


section \<open>JSON text\<close>

datatype json =
  JNull
| JBool bool
| JNum string
| JStr ustring
| JArr "json list"
| JObj "(ustring \<times> json) list"

text \<open>
  A number keeps its lexeme; \<open>NaN\<close>, \<open>Infinity\<close> and \<open>-Infinity\<close> are numbers too. A string
  and the name of a member are texts of code points.
\<close>

definition dquote :: char where
  "dquote = CHR 0x22"

definition bslash :: char where
  "bslash = CHR 0x5C"

subsection \<open>\<open>json.dumps\<close> of the two-key dictionary\<close>

definition hex_digit :: "nat \<Rightarrow> char" where
  "hex_digit k = ''0123456789abcdef'' ! k"

text \<open>
  The encoder with \<open>ensure_ascii\<close>: the printable ASCII characters other than the quote
  and the backslash stand for themselves, seven characters have a short escape, and every
  other character is written \<open>\u00XX\<close> with lowercase hexadecimal digits.
\<close>

definition escape_char :: "char \<Rightarrow> string" where
  "escape_char c =
     (let n = (of_char c :: nat)
      in if c = dquote then [bslash, dquote]
         else if c = bslash then [bslash, bslash]
         else if n = 10 then [bslash, CHR ''n'']
         else if n = 13 then [bslash, CHR ''r'']
         else if n = 9 then [bslash, CHR ''t'']
         else if n = 8 then [bslash, CHR ''b'']
         else if n = 12 then [bslash, CHR ''f'']
         else if 32 \<le> n \<and> n \<le> 126 then [c]
         else [bslash, CHR ''u'', CHR ''0'', CHR ''0'', hex_digit (n div 16), hex_digit (n mod 16)])"

definition dumps_str :: "string \<Rightarrow> string" where
  "dumps_str s = dquote # concat (map escape_char s) @ [dquote]"

definition dumps_query :: "string \<Rightarrow> string \<Rightarrow> string" where
  "dumps_query col val =
     ''{'' @ dumps_str ''target_column'' @ '': '' @ dumps_str col @ '', '' @
     dumps_str ''filter_value'' @ '': '' @ dumps_str val @ ''}''"

subsection \<open>\<open>json.loads\<close>\<close>

definition is_json_ws :: "char \<Rightarrow> bool" where
  "is_json_ws c = ((of_char c :: nat) \<in> {32, 9, 10, 13})"

definition skip_ws :: "string \<Rightarrow> string" where
  "skip_ws s = dropWhile is_json_ws s"

definition is_digit :: "char \<Rightarrow> bool" where
  "is_digit c = (let n = (of_char c :: nat) in 48 \<le> n \<and> n \<le> 57)"

definition hex_val :: "char \<Rightarrow> nat option" where
  "hex_val c =
     (let n = (of_char c :: nat)
      in if 48 \<le> n \<and> n \<le> 57 then Some (n - 48)
         else if 97 \<le> n \<and> n \<le> 102 then Some (n - 87)
         else if 65 \<le> n \<and> n \<le> 70 then Some (n - 55)
         else None)"

definition hex4 :: "char \<Rightarrow> char \<Rightarrow> char \<Rightarrow> char \<Rightarrow> int option" where
  "hex4 a b c d =
     (case (hex_val a, hex_val b, hex_val c, hex_val d) of
        (Some w, Some x, Some y, Some z) \<Rightarrow> Some (((int w * 16 + int x) * 16 + int y) * 16 + int z)
      | _ \<Rightarrow> None)"

definition simple_escape :: "char \<Rightarrow> char option" where
  "simple_escape e =
     (if e = dquote then Some dquote
      else if e = bslash then Some bslash
      else if e = CHR ''/'' then Some (CHR ''/'')
      else if e = CHR ''b'' then Some (CHR 0x08)
      else if e = CHR ''f'' then Some (CHR 0x0C)
      else if e = CHR ''n'' then Some (CHR 0x0A)
      else if e = CHR ''r'' then Some (CHR 0x0D)
      else if e = CHR ''t'' then Some (CHR 0x09)
      else None)"

definition is_high_surrogate :: "int \<Rightarrow> bool" where
  "is_high_surrogate n = (55296 \<le> n \<and> n \<le> 56319)"

definition is_low_surrogate :: "int \<Rightarrow> bool" where
  "is_low_surrogate n = (56320 \<le> n \<and> n \<le> 57343)"

definition join_surrogates :: "int \<Rightarrow> int \<Rightarrow> int" where
  "join_surrogates hi lo = 65536 + (hi - 55296) * 1024 + (lo - 56320)"

definition cons_fst :: "int \<Rightarrow> error + (ustring \<times> string) \<Rightarrow> error + (ustring \<times> string)" where
  "cons_fst c r = (case r of Inl e \<Rightarrow> Inl e | Inr (t, rest) \<Rightarrow> Inr (c # t, rest))"

text \<open>
  The text of a JSON string, read from behind its opening quote up to the closing quote;
  the result is the decoded text and what follows the closing quote. A control character
  inside the string is an error, as in the strict mode that \<open>json.loads\<close> uses. An escape
  \<open>\uXXXX\<close> of a high surrogate that is followed by the escape of a low surrogate stands
  with it for one code point; any other escape \<open>\uXXXX\<close> stands for the code point it names.
\<close>

fun scan_string :: "string \<Rightarrow> error + (ustring \<times> string)" where
  "scan_string [] = Inl JSONDecodeError"
| "scan_string (c # cs) =
     (if c = dquote then Inr ([], cs)
      else if c = bslash then
        (case cs of
           [] \<Rightarrow> Inl JSONDecodeError
         | e # es \<Rightarrow>
             (if e = CHR ''u'' then
                (case es of
                   h1 # h2 # h3 # h4 # rest \<Rightarrow>
                     (case hex4 h1 h2 h3 h4 of
                        None \<Rightarrow> Inl JSONDecodeError
                      | Some n \<Rightarrow>
                          (if is_high_surrogate n then
                             (case rest of
                                b # u # g1 # g2 # g3 # g4 # rest2 \<Rightarrow>
                                  (if b = bslash \<and> u = CHR ''u'' then
                                     (case hex4 g1 g2 g3 g4 of
                                        None \<Rightarrow> Inl JSONDecodeError
                                      | Some m \<Rightarrow>
                                          (if is_low_surrogate m
                                           then cons_fst (join_surrogates n m) (scan_string rest2)
                                           else cons_fst n (scan_string rest)))
                                   else cons_fst n (scan_string rest))
                              | _ \<Rightarrow> cons_fst n (scan_string rest))
                           else cons_fst n (scan_string rest)))
                 | _ \<Rightarrow> Inl JSONDecodeError)
              else
                (case simple_escape e of
                   None \<Rightarrow> Inl JSONDecodeError
                 | Some ch \<Rightarrow> cons_fst (of_char ch) (scan_string es))))
      else if (of_char c :: nat) < 32 then Inl JSONDecodeError
      else cons_fst (of_char c) (scan_string cs))"

text \<open>
  A number at the start of the text: an optional minus sign, \<open>0\<close> or a digit from 1 to 9
  followed by digits, then optionally a point with digits, then optionally an exponent.
  The result is the lexeme and the rest of the text.
\<close>

definition scan_frac :: "string \<Rightarrow> string \<times> string" where
  "scan_frac s =
     (case s of
        p # d # ds \<Rightarrow>
          (if p = CHR ''.'' \<and> is_digit d
           then (p # takeWhile is_digit (d # ds), dropWhile is_digit (d # ds))
           else ([], s))
      | _ \<Rightarrow> ([], s))"

definition scan_exp :: "string \<Rightarrow> string \<times> string" where
  "scan_exp s =
     (case s of
        [] \<Rightarrow> ([], s)
      | e # r \<Rightarrow>
          (if e = CHR ''e'' \<or> e = CHR ''E'' then
             (let (sg, r') =
                    (case r of
                       [] \<Rightarrow> ([], r)
                     | g # gs \<Rightarrow> (if g = CHR ''-'' \<or> g = CHR ''+'' then ([g], gs) else ([], r)))
              in if r' \<noteq> [] \<and> is_digit (hd r')
                 then (e # sg @ takeWhile is_digit r', dropWhile is_digit r')
                 else ([], s))
           else ([], s)))"

definition scan_number :: "string \<Rightarrow> (string \<times> string) option" where
  "scan_number s =
     (let (sg, s1) = (case s of
                        [] \<Rightarrow> ([], s)
                      | c # cs \<Rightarrow> (if c = CHR ''-'' then ([c], cs) else ([], s)))
      in case s1 of
           [] \<Rightarrow> None
         | c # cs \<Rightarrow>
             (if is_digit c then
                (let (ip, r1) = (if c = CHR ''0'' then ([c], cs)
                                 else (c # takeWhile is_digit cs, dropWhile is_digit cs));
                     (fp, r2) = scan_frac r1;
                     (ep, r3) = scan_exp r2
                 in Some (sg @ ip @ fp @ ep, r3))
              else None))"

text \<open>
  The value at the start of the text, in the order of the scanner: string, object, array,
  \<open>null\<close>, \<open>true\<close>, \<open>false\<close>, a number, then \<open>NaN\<close>, \<open>Infinity\<close> and \<open>-Infinity\<close>. The
  first argument is a step budget; each call of one of the three functions takes one unit.
\<close>

fun parse_value :: "nat \<Rightarrow> string \<Rightarrow> error + (json \<times> string)"
  and parse_members :: "nat \<Rightarrow> (ustring \<times> json) list \<Rightarrow> string \<Rightarrow> error + (json \<times> string)"
  and parse_elems :: "nat \<Rightarrow> json list \<Rightarrow> string \<Rightarrow> error + (json \<times> string)"
where
  "parse_value 0 s = Inl OutOfFuel"
| "parse_value (Suc n) s =
     (case s of
        [] \<Rightarrow> Inl JSONDecodeError
      | c # cs \<Rightarrow>
          (if c = dquote then
             (case scan_string cs of Inl e \<Rightarrow> Inl e | Inr (t, r) \<Rightarrow> Inr (JStr t, r))
           else if c = CHR ''{'' then
             (let r = skip_ws cs
              in if r \<noteq> [] \<and> hd r = CHR ''}'' then Inr (JObj [], tl r)
                 else parse_members n [] r)
           else if c = CHR ''['' then
             (let r = skip_ws cs
              in if r \<noteq> [] \<and> hd r = CHR '']'' then Inr (JArr [], tl r)
                 else parse_elems n [] r)
           else if prefix ''null'' s then Inr (JNull, drop 4 s)
           else if prefix ''true'' s then Inr (JBool True, drop 4 s)
           else if prefix ''false'' s then Inr (JBool False, drop 5 s)
           else
             (case scan_number s of
                Some (lx, r) \<Rightarrow> Inr (JNum lx, r)
              | None \<Rightarrow>
                  (if prefix ''NaN'' s then Inr (JNum ''NaN'', drop 3 s)
                   else if prefix ''Infinity'' s then Inr (JNum ''Infinity'', drop 8 s)
                   else if prefix ''-Infinity'' s then Inr (JNum ''-Infinity'', drop 9 s)
                   else Inl JSONDecodeError))))"
| "parse_members 0 acc s = Inl OutOfFuel"
| "parse_members (Suc n) acc s =
     (case s of
        [] \<Rightarrow> Inl JSONDecodeError
      | c # cs \<Rightarrow>
          (if c \<noteq> dquote then Inl JSONDecodeError
           else
             (case scan_string cs of
                Inl e \<Rightarrow> Inl e
              | Inr (k, r) \<Rightarrow>
                  (case skip_ws r of
                     [] \<Rightarrow> Inl JSONDecodeError
                   | d # ds \<Rightarrow>
                       (if d \<noteq> CHR '':'' then Inl JSONDecodeError
                        else
                          (case parse_value n (skip_ws ds) of
                             Inl e \<Rightarrow> Inl e
                           | Inr (v, r2) \<Rightarrow>
                               (case skip_ws r2 of
                                  [] \<Rightarrow> Inl JSONDecodeError
                                | e # es \<Rightarrow>
                                    (if e = CHR ''}'' then Inr (JObj (acc @ [(k, v)]), es)
                                     else if e = CHR '',''
                                     then parse_members n (acc @ [(k, v)]) (skip_ws es)
                                     else Inl JSONDecodeError))))))))"
| "parse_elems 0 acc s = Inl OutOfFuel"
| "parse_elems (Suc n) acc s =
     (case parse_value n s of
        Inl e \<Rightarrow> Inl e
      | Inr (v, r) \<Rightarrow>
          (case skip_ws r of
             [] \<Rightarrow> Inl JSONDecodeError
           | e # es \<Rightarrow>
               (if e = CHR '']'' then Inr (JArr (acc @ [v]), es)
                else if e = CHR '','' then parse_elems n (acc @ [v]) (skip_ws es)
                else Inl JSONDecodeError)))"

text \<open>
  \<open>json.loads\<close>: white space, one value, white space, and nothing else. The budget is
  above twice the length of the text. The interpreter's limits on the depth of nesting
  and on the number of digits of an integer are not modelled: where the interpreter
  stops at one of them, the model still decodes.
\<close>

definition json_loads :: "string \<Rightarrow> error + json" where
  "json_loads s =
     (let s' = skip_ws s
      in case parse_value (Suc (2 * length s')) s' of
           Inl e \<Rightarrow> Inl e
         | Inr (v, r) \<Rightarrow> (if skip_ws r = [] then Inr v else Inl JSONDecodeError))"

section \<open>The schema\<close>

definition SCHEMA :: "(string \<times> string) list" where
  "SCHEMA =
     [(''USUBJID'', ''Unique subject id (RETURN ONLY; do not choose as a filter column)''),
      (''AETERM'', ''Adverse event term (e.g., Headache, Fatigue)''),
      (''AESOC'', ''Body system / System Organ Class (e.g., Skin, Cardiac, Eye disorders)''),
      (''AESEV'', ''Severity / intensity (e.g., MILD, MODERATE, SEVERE)''),
      (''AEDECOD'', ''Dictionary-derived term (coded)'')]"

definition MAPPABLE_COLS :: "string list" where
  "MAPPABLE_COLS = map fst SCHEMA"

text \<open>\<open>"\n".join(xs)\<close>, and the text of the schema built with it.\<close>

fun join_nl :: "string list \<Rightarrow> string" where
  "join_nl [] = []"
| "join_nl [x] = x"
| "join_nl (x # y # ys) = x @ ''\<newline>'' @ join_nl (y # ys)"

definition SCHEMA_TEXT :: string where
  "SCHEMA_TEXT = join_nl (map (\<lambda>(k, v). ''- '' @ k @ '': '' @ v) SCHEMA)"

section \<open>The agent\<close>

text \<open>
  The collaborator is a function from the prompt to the text of its answer, or to the
  exception it raises. \<open>llm\<close> is \<open>None\<close> as long as no client has been built.
\<close>

record agent =
  df :: frame
  schema_text :: string
  use_llm :: bool
  llm :: "(string \<Rightarrow> error + string) option"

text \<open>
  \<open>__init__\<close>: \<open>key\<close> tells whether \<open>OPENAI_API_KEY\<close> is set to a non-empty text, and
  \<open>client\<close> is what building the client gives: the client, or \<open>None\<close> when the import or
  the constructor raises.
\<close>

definition init :: "frame \<Rightarrow> string \<Rightarrow> bool \<Rightarrow> (string \<Rightarrow> error + string) option \<Rightarrow> agent" where
  "init d st key client =
     (if key then
        (case client of
           Some c \<Rightarrow> \<lparr>df = d, schema_text = st, use_llm = True, llm = Some c\<rparr>
         | None \<Rightarrow> \<lparr>df = d, schema_text = st, use_llm = False, llm = None\<rparr>)
      else \<lparr>df = d, schema_text = st, use_llm = False, llm = None\<rparr>)"

definition prompt :: "agent \<Rightarrow> string \<Rightarrow> string" where
  "prompt self question =
     strip (join_nl
       [[],
        ''Return ONLY JSON with keys: target_column, filter_value.'',
        [],
        ''Rules:'',
        ''- target_column MUST be one of: ['USUBJID', 'AETERM', 'AESOC', 'AESEV', 'AEDECOD']'',
        ''- Do NOT choose USUBJID unless the question explicitly asks to filter by a subject id.'',
        ''- Prefer:'',
        ''  - AESEV for severity/intensity (e.g., MILD, MODERATE, SEVERE)'',
        ''  - AETERM for specific AE terms (e.g., Fatigue, Headache, Erythema)'',
        ''  - AESOC for body system (e.g., eye, skin, cardiac, general disorders)'',
        [],
        ''Schema:'',
        schema_text self,
        [],
        ''Question:'',
        question,
        []])"

definition call_llm :: "agent \<Rightarrow> string \<Rightarrow> error + string" where
  "call_llm self question =
     (case llm self of
        None \<Rightarrow> Inl AttributeError
      | Some invoke \<Rightarrow>
          (case invoke (prompt self question) of
             Inl e \<Rightarrow> Inl e
           | Inr content \<Rightarrow> Inr (strip content)))"

section \<open>The matcher and scorer\<close>

text \<open>
  The score of one column against the lowercased question \<open>q\<close>: the number of tokens the
  question shares with the column's name and description, and 2 more when the lowercased
  name occurs in the question.
\<close>

definition score :: "string \<Rightarrow> string \<Rightarrow> error + int" where
  "score q col =
     (case map_of SCHEMA col of
        None \<Rightarrow> Inl KeyError
      | Some desc \<Rightarrow>
          (let qtok = set (findall_lower_alnum q);
               stok = set (findall_lower_alnum (lower (col @ '' '' @ desc)))
           in Inr (int (card (qtok \<inter> stok)) + (if str_in (lower col) q then 2 else 0))))"

text \<open>The loop over \<open>cols_to_score\<close>, with \<open>best_col\<close> and \<open>best_score\<close> as its state.\<close>

fun best_loop :: "string \<Rightarrow> string list \<Rightarrow> string \<times> int \<Rightarrow> error + (string \<times> int)" where
  "best_loop q [] best = Inr best"
| "best_loop q (col # cols) (best_col, best_score) =
     (case score q col of
        Inl e \<Rightarrow> Inl e
      | Inr sc \<Rightarrow>
          (if sc > best_score then best_loop q cols (col, sc)
           else best_loop q cols (best_col, best_score)))"

definition cols_to_score :: "string list" where
  "cols_to_score = filter (\<lambda>c. c \<noteq> ''USUBJID'') MAPPABLE_COLS"

text \<open>
  \<open>re.search(r'"([^"]+)"', question)\<close>: the leftmost quote that is followed by at least
  one character other than a quote and then by a quote; the group is the text between.
\<close>

fun quoted :: "string \<Rightarrow> string option" where
  "quoted [] = None"
| "quoted (c # cs) =
     (if c = dquote \<and> takeWhile (\<lambda>x. x \<noteq> dquote) cs \<noteq> [] \<and> dropWhile (\<lambda>x. x \<noteq> dquote) cs \<noteq> []
      then Some (takeWhile (\<lambda>x. x \<noteq> dquote) cs)
      else quoted cs)"

text \<open>\<open>xs[-3:]\<close>.\<close>

definition last3 :: "'a list \<Rightarrow> 'a list" where
  "last3 xs = drop (length xs - 3) xs"

text \<open>
  \<open>sorted(vals, key=len, reverse=True)\<close>: a stable sort, the longest text first, texts of
  one length in the order they had.
\<close>

definition sorted_by_len_desc :: "string list \<Rightarrow> string list" where
  "sorted_by_len_desc vals = sort_key (\<lambda>v. - int (length v)) vals"

text \<open>The candidate values of a column: \<open>vals\<close> after the sort and the cut at 5000.\<close>

definition candidates :: "cell list \<Rightarrow> string list" where
  "candidates cells = take 5000 (sorted_by_len_desc (unique (dropna_str cells)))"

text \<open>The filter value of \<open>_mock_llm\<close>, from the candidates and the question.\<close>

definition pick_value :: "string list \<Rightarrow> string \<Rightarrow> string" where
  "pick_value vals question =
     (let q = lower question;
          val = (case find (\<lambda>v. str_in (lower v) q) vals of Some v \<Rightarrow> v | None \<Rightarrow> [])
      in if val = [] then
           (case quoted question of
              Some g \<Rightarrow> g
            | None \<Rightarrow> join_sp (last3 (findall_alnum question)))
         else val)"

text \<open>The dictionary that \<open>_mock_llm\<close> builds, as the pair of its two values.\<close>

definition mock_query :: "agent \<Rightarrow> string \<Rightarrow> error + (string \<times> string)" where
  "mock_query self question =
     (let q = lower question
      in case best_loop q cols_to_score (''AETERM'', - 1) of
           Inl e \<Rightarrow> Inl e
         | Inr (best_col, best_score) \<Rightarrow>
             (case column best_col of
                None \<Rightarrow> Inl KeyError
              | Some col \<Rightarrow>
                  Inr (best_col, pick_value (candidates (map col (df self))) question)))"

definition mock_llm :: "agent \<Rightarrow> string \<Rightarrow> error + string" where
  "mock_llm self question =
     (case mock_query self question of
        Inl e \<Rightarrow> Inl e
      | Inr (best_col, val) \<Rightarrow> Inr (dumps_query best_col val))"

section \<open>The matcher with the layout of its sets made explicit\<close>

text \<open>
  \<open>_mock_llm\<close> builds two Python sets of tokens for each column. The order in which a set
  of strings is walked follows the hash values of its elements, and these differ from one
  run of the interpreter to the next: it is the one state that \<open>_mock_llm\<close> meets without
  being given it. The definitions below are those of the matcher once more, with that
  state as a parameter: \<open>layout\<close> takes the elements in the order they are added and
  gives them in the order the set is walked in. \<open>a & b\<close> walks the smaller operand, the
  right one when the two have the same size, keeps the elements found in the other and
  makes a set of them; \<open>len\<close> counts its elements.
\<close>

definition py_inter ::
  "(string list \<Rightarrow> string list) \<Rightarrow> string list \<Rightarrow> string list \<Rightarrow> string list" where
  "py_inter layout a b =
     layout (if length a < length b then filter (\<lambda>x. x \<in> set b) a
             else filter (\<lambda>x. x \<in> set a) b)"

definition score_run :: "(string list \<Rightarrow> string list) \<Rightarrow> string \<Rightarrow> string \<Rightarrow> error + int" where
  "score_run layout q col =
     (case map_of SCHEMA col of
        None \<Rightarrow> Inl KeyError
      | Some desc \<Rightarrow>
          (let qtok = layout (findall_lower_alnum q);
               stok = layout (findall_lower_alnum (lower (col @ '' '' @ desc)))
           in Inr (int (length (py_inter layout qtok stok))
                   + (if str_in (lower col) q then 2 else 0))))"

fun best_loop_run ::
  "(string list \<Rightarrow> string list) \<Rightarrow> string \<Rightarrow> string list \<Rightarrow> string \<times> int
   \<Rightarrow> error + (string \<times> int)" where
  "best_loop_run layout q [] best = Inr best"
| "best_loop_run layout q (col # cols) (best_col, best_score) =
     (case score_run layout q col of
        Inl e \<Rightarrow> Inl e
      | Inr sc \<Rightarrow>
          (if sc > best_score then best_loop_run layout q cols (col, sc)
           else best_loop_run layout q cols (best_col, best_score)))"

definition mock_query_run ::
  "(string list \<Rightarrow> string list) \<Rightarrow> agent \<Rightarrow> string \<Rightarrow> error + (string \<times> string)" where
  "mock_query_run layout self question =
     (let q = lower question
      in case best_loop_run layout q cols_to_score (''AETERM'', - 1) of
           Inl e \<Rightarrow> Inl e
         | Inr (best_col, best_score) \<Rightarrow>
             (case column best_col of
                None \<Rightarrow> Inl KeyError
              | Some col \<Rightarrow>
                  Inr (best_col, pick_value (candidates (map col (df self))) question)))"

definition mock_llm_run ::
  "(string list \<Rightarrow> string list) \<Rightarrow> agent \<Rightarrow> string \<Rightarrow> error + string" where
  "mock_llm_run layout self question =
     (case mock_query_run layout self question of
        Inl e \<Rightarrow> Inl e
      | Inr (best_col, val) \<Rightarrow> Inr (dumps_query best_col val))"

section \<open>The query interpreter\<close>

text \<open>
  \<open>re.search(r"\{.*\}", raw, flags=re.S)\<close>: the star is greedy and the dot matches every
  character, so the match runs from the first opening brace to the last closing brace
  behind it; there is no match when no closing brace follows the first opening brace.
\<close>

definition search_braces :: "string \<Rightarrow> string option" where
  "search_braces raw =
     (let t = dropWhile (\<lambda>c. c \<noteq> CHR ''{'') raw;
          u = rev (dropWhile (\<lambda>c. c \<noteq> CHR ''}'') (rev t))
      in if u = [] then None else Some u)"

text \<open>
  The word characters of \<open>\b\<close> among the 256 code points: the letters, the digits and
  other numeric characters, and the underscore.
\<close>

definition is_word :: "char \<Rightarrow> bool" where
  "is_word c =
     (let n = (of_char c :: nat)
      in (48 \<le> n \<and> n \<le> 57) \<or> (65 \<le> n \<and> n \<le> 90) \<or> n = 95 \<or> (97 \<le> n \<and> n \<le> 122)
         \<or> n = 170 \<or> n = 178 \<or> n = 179 \<or> n = 181 \<or> n = 185 \<or> n = 186
         \<or> (188 \<le> n \<and> n \<le> 190) \<or> (192 \<le> n \<and> n \<le> 214) \<or> (216 \<le> n \<and> n \<le> 246)
         \<or> 248 \<le> n)"

text \<open>
  \<open>re.search(r"\b(usubjid|subject id)\b", question, re.I)\<close>. Both alternatives begin and
  end with a letter, so the match begins where the text starts or a character that is no
  word character precedes, and ends where the text ends or such a character follows.
  \<open>bound\<close> tells whether a match may begin at the head of the text.
\<close>

definition word_here :: "string \<Rightarrow> string \<Rightarrow> bool" where
  "word_here w t =
     (match_here_ci w t \<and> (case drop (length w) t of [] \<Rightarrow> True | c # cs \<Rightarrow> \<not> is_word c))"

fun search_subject_from :: "bool \<Rightarrow> string \<Rightarrow> bool" where
  "search_subject_from bound [] = False"
| "search_subject_from bound (c # cs) =
     ((bound \<and> (word_here ''usubjid'' (c # cs) \<or> word_here ''subject id'' (c # cs)))
      \<or> search_subject_from (\<not> is_word c) cs)"

definition search_subject :: "string \<Rightarrow> bool" where
  "search_subject question = search_subject_from True question"

text \<open>
  \<open>obj.get(key, "")\<close> on the dictionary that \<open>json.loads\<close> builds from an object: of two
  members with one name the later one counts.
\<close>

definition dict_get :: "(ustring \<times> json) list \<Rightarrow> ustring \<Rightarrow> json \<Rightarrow> json" where
  "dict_get kvs key dflt = (case map_of (rev kvs) key of Some v \<Rightarrow> v | None \<Rightarrow> dflt)"

text \<open>
  \<open>str(x)\<close> on a decoded value. The text of a number, a list or a dictionary is left to
  the parameter \<open>repr\<close>, which stands for what Python prints for them.
\<close>

fun py_str :: "(json \<Rightarrow> ustring) \<Rightarrow> json \<Rightarrow> ustring" where
  "py_str repr (JStr s) = s"
| "py_str repr JNull = ustr ''None''"
| "py_str repr (JBool b) = (if b then ustr ''True'' else ustr ''False'')"
| "py_str repr j = repr j"

record query =
  target_column :: ustring
  filter_value :: ustring

text \<open>
  The second half of \<open>parse_question\<close>, on the decoded object: the two values are read,
  turned to text and stripped, and the column is repaired. \<open>obj.get\<close> exists on a
  dictionary only.
\<close>

definition validate :: "(json \<Rightarrow> ustring) \<Rightarrow> string \<Rightarrow> json \<Rightarrow> error + query" where
  "validate repr question obj =
     (case obj of
        JObj kvs \<Rightarrow>
          (let col = ustrip (py_str repr (dict_get kvs (ustr ''target_column'') (JStr [])));
               val = ustrip (py_str repr (dict_get kvs (ustr ''filter_value'') (JStr [])));
               col1 = (if col \<notin> set (map ustr MAPPABLE_COLS) then ustr ''AETERM'' else col);
               col2 = (if col1 = ustr ''USUBJID'' \<and> \<not> search_subject question
                       then ustr ''AETERM'' else col1)
           in Inr \<lparr>target_column = col2, filter_value = val\<rparr>)
      | _ \<Rightarrow> Inl AttributeError)"

definition parse_question :: "(json \<Rightarrow> ustring) \<Rightarrow> agent \<Rightarrow> string \<Rightarrow> error + query" where
  "parse_question repr self question =
     (case (if use_llm self then call_llm self question else mock_llm self question) of
        Inl e \<Rightarrow> Inl e
      | Inr raw \<Rightarrow>
          (case json_loads (case search_braces raw of Some g \<Rightarrow> g | None \<Rightarrow> raw) of
             Inl e \<Rightarrow> Inl e
           | Inr obj \<Rightarrow> validate repr question obj))"

section \<open>Example data\<close>

text \<open>A frame of three events; the third has neither body system nor severity.\<close>

definition rows_demo :: frame where
  "rows_demo =
     [\<lparr>USUBJID = Some ''S1'', AETERM = Some ''Headache'', AESOC = Some ''Eye disorders'',
        AESEV = Some ''MILD'', AEDECOD = Some ''HEADACHE''\<rparr>,
      \<lparr>USUBJID = Some ''S2'', AETERM = Some ''Headache'', AESOC = Some ''Cardiac disorders'',
        AESEV = Some ''MODERATE'', AEDECOD = None\<rparr>,
      \<lparr>USUBJID = Some ''S3'', AETERM = Some ''Fatigue'', AESOC = None,
        AESEV = None, AEDECOD = None\<rparr>]"

text \<open>A frame whose severities differ in case, with one longer text, a row without identifier and a row without severity.\<close>

definition rows_sev :: frame where
  "rows_sev =
     [\<lparr>USUBJID = Some ''S1'', AETERM = Some ''Headache'', AESOC = None, AESEV = Some ''MILD'', AEDECOD = None\<rparr>,
      \<lparr>USUBJID = Some ''S2'', AETERM = Some ''Nausea'', AESOC = None, AESEV = Some ''Mild to moderate'', AEDECOD = None\<rparr>,
      \<lparr>USUBJID = Some ''S1'', AETERM = Some ''Fatigue'', AESOC = None, AESEV = Some ''mild'', AEDECOD = None\<rparr>,
      \<lparr>USUBJID = None, AETERM = Some ''Rash'', AESOC = None, AESEV = Some ''Mild'', AEDECOD = None\<rparr>,
      \<lparr>USUBJID = Some ''S3'', AETERM = Some ''Rash'', AESOC = None, AESEV = None, AEDECOD = None\<rparr>]"

text \<open>A frame of two rows, the second without severity.\<close>

definition rows_missing :: frame where
  "rows_missing =
     [\<lparr>USUBJID = Some ''S1'', AETERM = Some ''Headache'', AESOC = None, AESEV = Some ''MILD'', AEDECOD = None\<rparr>,
      \<lparr>USUBJID = Some ''S2'', AETERM = Some ''Rash'', AESOC = None, AESEV = None, AEDECOD = None\<rparr>]"

text \<open>A frame of two rows, the first with the severity \<open>NAN\<close> and the second without severity.\<close>

definition rows_nan :: frame where
  "rows_nan =
     [\<lparr>USUBJID = Some ''S1'', AETERM = Some ''Headache'', AESOC = None, AESEV = Some ''NAN'', AEDECOD = None\<rparr>,
      \<lparr>USUBJID = Some ''S2'', AETERM = Some ''Rash'', AESOC = None, AESEV = None, AEDECOD = None\<rparr>]"

text \<open>A frame whose one term is the empty text.\<close>

definition rows_blank_term :: frame where
  "rows_blank_term =
     [\<lparr>USUBJID = Some ''S1'', AETERM = Some [], AESOC = None, AESEV = None, AEDECOD = None\<rparr>]"

text \<open>An agent without collaborator, as \<open>__init__\<close> builds it when no key is set.\<close>

definition agent_mock :: agent where
  "agent_mock = init rows_demo SCHEMA_TEXT False None"

definition agent_blank_term :: agent where
  "agent_blank_term = init rows_blank_term SCHEMA_TEXT False None"

text \<open>An agent whose collaborator raises on every prompt.\<close>

definition agent_failing :: agent where
  "agent_failing = init rows_demo SCHEMA_TEXT True (Some (\<lambda>p. Inl LLMError))"

text \<open>An agent whose collaborator gives one fixed answer.\<close>

definition agent_answering :: "string \<Rightarrow> agent" where
  "agent_answering answer = init rows_demo SCHEMA_TEXT True (Some (\<lambda>p. Inr answer))"

text \<open>A text for numbers, lists and dictionaries, for payloads that hold none of them.\<close>

definition repr_unused :: "json \<Rightarrow> ustring" where
  "repr_unused j = []"

text \<open>Two of the questions of the script.\<close>

definition q_headache :: string where
  "q_headache = ''Which subjects experienced Headache?''"

definition q_eye :: string where
  "q_eye = ''How many subjects have eye disorders?''"

text \<open>Questions with quotes: two quotes with nothing between them, the same followed by a quoted word, and a quoted word alone; a question without quotes.\<close>

definition q_empty_quotes :: string where
  \<open>q_empty_quotes = ''Find "" events''\<close>

definition q_two_quotes :: string where
  \<open>q_two_quotes = ''say "" and "x"''\<close>

definition q_quoted :: string where
  \<open>q_quoted = ''events like "Rash" please''\<close>

definition q_tokens :: string where
  "q_tokens = ''all events in subjects''"

text \<open>An answer that names the identifier column, with words before the object; its inner text.\<close>

definition answer_usubjid :: string where
  \<open>answer_usubjid = ''Here you go: {"target_column": "USUBJID", "filter_value": " S1 "}''\<close>

definition answer_usubjid_mid :: string where
  \<open>answer_usubjid_mid = ''"target_column": "USUBJID", "filter_value": " S1 "''\<close>

text \<open>An answer whose two columns are not in the schema, the second one taking the place of the first.\<close>

definition answer_unknown :: string where
  \<open>answer_unknown = ''{"filter_value": "Rash", "target_column": "AEBODSYS", "target_column": " Severity "}''\<close>

text \<open>An answer with spaces around the column and with escapes in the filter value: U+00EF, U+0100 and the pair of surrogates of U+1F600.\<close>

definition answer_sev :: string where
  \<open>answer_sev =
     ''{"target_column": " AESEV ", "filter_value": "na'' @ [bslash] @ ''u00efve '' @
     [bslash] @ ''u0100 '' @ [bslash] @ ''ud83d'' @ [bslash] @ ''ude00"}''\<close>

text \<open>The text the matcher gives for the question about eye disorders.\<close>

definition answer_eye :: string where
  \<open>answer_eye = ''{"target_column": "AESOC", "filter_value": "Eye disorders"}''\<close>

text \<open>Two layouts of a set: in the order of first insertion, and from the shortest text to the longest.\<close>

definition layout_first :: "string list \<Rightarrow> string list" where
  "layout_first xs = rev (remdups (rev xs))"

definition layout_by_length :: "string list \<Rightarrow> string list" where
  "layout_by_length xs = sort_key length (remdups xs)"

text \<open>An answer of two objects, its first object, and an answer that is a JSON string.\<close>

definition answer_two_objects :: string where
  \<open>answer_two_objects =
     ''{"target_column": "AESEV", "filter_value": "MILD"} or {"target_column": "AETERM", "filter_value": "Rash"}''\<close>

definition answer_first_object :: string where
  \<open>answer_first_object = ''{"target_column": "AESEV", "filter_value": "MILD"}''\<close>

definition answer_quoted_braces :: string where
  \<open>answer_quoted_braces = ''"{x}"''\<close>

section \<open>Auxiliary lemmas\<close>

subsection \<open>Escaped patterns and containment\<close>

text \<open>The pattern that \<open>re.escape\<close> builds compiles to the text it was built from, and the searches of the model are containment of lists.\<close>

lemma re_special_not_alnum: "re_special c \<Longrightarrow> \<not> is_alnum c"
  by (auto simp: re_special_def is_alnum_def)

lemma backslash_special: "re_special (CHR 0x5C)"
  by (simp add: re_special_def)

lemma re_literal_plain:
  "\<not> re_special c \<Longrightarrow> re_literal (c # cs) = map_option ((#) c) (re_literal cs)"
  using backslash_special by (cases cs) auto

lemma re_literal_escape: "re_literal (re_escape s) = Some s"
  by (induction s) (auto simp: re_literal_plain re_special_not_alnum)

lemma match_here_ci_prefix: "match_here_ci p t = prefix (lower p) (lower t)"
  by (induction p t rule: match_here_ci.induct) (auto simp: lower_def)

lemma search_ci_sublist: "search_ci p t = sublist (lower p) (lower t)"
  by (induction t) (auto simp: match_here_ci_prefix lower_def sublist_Cons_right)

lemma str_in_sublist: "str_in a b = sublist a b"
  by (induction b) (auto simp: sublist_Cons_right)

lemma sublist_set: "sublist a b \<Longrightarrow> set a \<subseteq> set b"
  by (auto simp: sublist_def)

lemma find_mem: "find P xs = Some x \<Longrightarrow> P x"
  by (induction xs) (auto split: if_splits)

subsection \<open>Frames\<close>

lemma set_unique: "set (unique xs) = set xs"
  by (induction xs rule: unique.induct) auto

lemma distinct_unique: "distinct (unique xs)"
  by (induction xs rule: unique.induct) (auto simp: set_unique)

lemma loc_map: "loc rows (map P rows) = filter P rows"
  by (induction rows) (auto simp: loc_def)

lemma set_dropna_str: "set (dropna_str cells) = {s. Some s \<in> set cells}"
  by (force simp: dropna_str_def)

lemma uniq_iff:
  "lower fv \<in> set (map lower (dropna_str (map col rows))) \<longleftrightarrow>
   (\<exists>r \<in> set rows. \<exists>v. col r = Some v \<and> lower v = lower fv)"
proof -
  have "set (map lower (dropna_str (map col rows))) = lower ` {s. Some s \<in> col ` set rows}"
    by (simp add: set_dropna_str)
  then show ?thesis by (auto simp: image_iff) metis+
qed

lemma remdups_snoc: "remdups (ys @ [x]) = filter (\<lambda>y. y \<noteq> x) (remdups ys) @ [x]"
  by (induction ys) auto

lemma unique_remdups: "unique xs = rev (remdups (rev xs))"
proof (induction xs rule: unique.induct)
  case 1
  then show ?case by simp
next
  case (2 x xs)
  have "rev (remdups (rev (x # xs))) = x # rev (filter (\<lambda>y. y \<noteq> x) (remdups (rev xs)))"
    by (simp add: remdups_snoc)
  also have "\<dots> = x # rev (remdups (rev (filter (\<lambda>y. y \<noteq> x) xs)))"
    by (simp only: remdups_filter rev_filter)
  finally show ?case using 2 by simp
qed

subsection \<open>The mask over the column as text\<close>

text \<open>What the mask selects, with the text of a row as \<open>astype(str)\<close> gives it: a missing cell takes part with the text \<open>nan\<close>.\<close>

lemma execute_over_texts:
  assumes "column tcol = Some col"
  shows "\<exists>m. mask rows tcol fval = Inr m \<and>
     loc rows m =
       (if \<exists>r \<in> set rows. \<exists>v. col r = Some v \<and> lower v = lower fval
        then filter (\<lambda>r. lower (as_str (col r)) = lower fval) rows
        else filter (\<lambda>r. sublist (lower fval) (lower (as_str (col r)))) rows) \<and>
     execute rows tcol fval =
       Inr (length (unique (dropna_str (map USUBJID (loc rows m)))),
            unique (dropna_str (map USUBJID (loc rows m))))"
proof (cases "\<exists>r \<in> set rows. \<exists>v. col r = Some v \<and> lower v = lower fval")
  case True
  then have u: "lower fval \<in> set (map lower (dropna_str (map col rows)))"
    by (simp only: uniq_iff)
  have m: "mask rows tcol fval =
      Inr (map (\<lambda>r. lower (as_str (col r)) = lower fval) rows)"
    using assms u by (simp add: mask_def Let_def comp_def)
  show ?thesis
    using True by (simp add: m loc_map execute_def Let_def)
next
  case False
  then have u: "lower fval \<notin> set (map lower (dropna_str (map col rows)))"
    by (simp only: uniq_iff not_False_eq_True)
  have m: "mask rows tcol fval =
      Inr (map (\<lambda>r. sublist (lower fval) (lower (as_str (col r)))) rows)"
    using assms u by (simp add: mask_def Let_def comp_def re_literal_escape search_ci_sublist)
  show ?thesis
    using False by (auto simp add: m loc_map execute_def Let_def)
qed

subsection \<open>The reader on the encoder's output\<close>

text \<open>\<open>json.loads\<close> gives back the two texts that \<open>json.dumps\<close> wrote, and the search for the braces takes the whole output.\<close>

lemma hex_val_digit: "k < 16 \<Longrightarrow> hex_val (hex_digit k) = Some k"
proof -
  assume "k < 16"
  then have "k \<in> {0,1,2,3,4,5,6,7,8,9,10,11,12,13,14,15}" by simp arith
  then show ?thesis by (auto simp: hex_val_def hex_digit_def)
qed

lemma hex4_low: "hex4 (CHR ''0'') (CHR ''0'') (hex_digit (n div 16)) (hex_digit (n mod 16)) = Some (int n)" if "n < 256"
proof -
  have "n div 16 < 16" using that by simp
  moreover have "n mod 16 < 16" by simp
  moreover have "hex_val (CHR ''0'') = Some 0" by (simp add: hex_val_def)
  moreover have "int (n div 16) * 16 + int (n mod 16) = int n"
    by (simp add: zdiv_int zmod_int)
  ultimately show ?thesis
    by (simp add: hex4_def hex_val_digit)
qed

lemma char_eqI: "(of_char c :: nat) = of_char d \<Longrightarrow> c = d"
  by simp

lemma scan_string_escape_char:
  "scan_string (escape_char c @ rest) = cons_fst (of_char c) (scan_string rest)"
proof -
  let ?n = "of_char c :: nat"
  have lt: "?n < 256" by simp
  consider (dq) "c = dquote" | (bs) "c = bslash" | (n) "?n = 10" | (r) "?n = 13" | (t) "?n = 9"
    | (b) "?n = 8" | (f) "?n = 12"
    | (plain) "c \<noteq> dquote" "c \<noteq> bslash" "32 \<le> ?n" "?n \<le> 126"
    | (other) "c \<noteq> dquote" "c \<noteq> bslash" "?n \<notin> {8,9,10,12,13}" "\<not> (32 \<le> ?n \<and> ?n \<le> 126)"
    by auto
  then show ?thesis
  proof cases
    case dq then show ?thesis by (simp add: escape_char_def simple_escape_def dquote_def bslash_def)
  next
    case bs then show ?thesis by (simp add: escape_char_def simple_escape_def dquote_def bslash_def)
  next
    case n
    then have "c = CHR 0x0A" by (intro char_eqI) simp
    then show ?thesis  by (simp add: escape_char_def simple_escape_def dquote_def bslash_def)
  next
    case r
    then have "c = CHR 0x0D" by (intro char_eqI) simp
    then show ?thesis  by (simp add: escape_char_def simple_escape_def dquote_def bslash_def)
  next
    case t
    then have "c = CHR 0x09" by (intro char_eqI) simp
    then show ?thesis  by (simp add: escape_char_def simple_escape_def dquote_def bslash_def)
  next
    case b
    then have "c = CHR 0x08" by (intro char_eqI) simp
    then show ?thesis  by (simp add: escape_char_def simple_escape_def dquote_def bslash_def)
  next
    case f
    then have "c = CHR 0x0C" by (intro char_eqI) simp
    then show ?thesis  by (simp add: escape_char_def simple_escape_def dquote_def bslash_def)
  next
    case plain
    then show ?thesis by (simp add: escape_char_def)
  next
    case other
    then have "escape_char c = [bslash, CHR ''u'', CHR ''0'', CHR ''0'', hex_digit (?n div 16), hex_digit (?n mod 16)]"
      by (auto simp: escape_char_def Let_def)
    moreover have "\<not> is_high_surrogate (int ?n)"
      unfolding is_high_surrogate_def using lt by linarith
    moreover have "(of_char c :: int) = int ?n" by (rule of_nat_of_char[symmetric])
    ultimately show ?thesis using hex4_low[OF lt] by (simp add: bslash_def dquote_def)
  qed
qed

lemma scan_string_escaped:
  "scan_string (concat (map escape_char s) @ dquote # rest) = Inr (ustr s, rest)"
  by (induction s) (simp_all add: scan_string_escape_char cons_fst_def ustr_def)

lemma parse_value_dumps_str:
  "parse_value (Suc n) (dumps_str s @ rest) = Inr (JStr (ustr s), rest)"
  by (simp add: dumps_str_def scan_string_escaped)

lemma skip_ws_colon: "skip_ws (CHR '':'' # r) = CHR '':'' # r"
  and skip_ws_comma: "skip_ws (CHR '','' # r) = CHR '','' # r"
  and skip_ws_rbrace: "skip_ws (CHR ''}'' # r) = CHR ''}'' # r"
  and skip_ws_space: "skip_ws (CHR '' '' # r) = skip_ws r"
  and skip_ws_dquote: "skip_ws (dquote # r) = dquote # r"
  and skip_ws_lbrace: "skip_ws (CHR ''{'' # r) = CHR ''{'' # r"
  by (simp_all add: skip_ws_def is_json_ws_def dquote_def)

lemma skip_ws_dumps_str: "skip_ws (dumps_str s @ r) = dumps_str s @ r"
  by (simp add: dumps_str_def skip_ws_dquote)

lemma parse_members_last:
  "parse_members (Suc (Suc n)) acc
     (dumps_str k @ CHR '':'' # CHR '' '' # dumps_str v @ CHR ''}'' # rest)
   = Inr (JObj (acc @ [(ustr k, JStr (ustr v))]), rest)"
proof -
  have "parse_members (Suc (Suc n)) acc
          (dquote # concat (map escape_char k) @ dquote # '': '' @ dumps_str v @ ''}'' @ rest)
        = Inr (JObj (acc @ [(ustr k, JStr (ustr v))]), rest)"
    by (simp add: scan_string_escaped skip_ws_colon skip_ws_space skip_ws_rbrace
        skip_ws_dumps_str parse_value_dumps_str del: parse_value.simps)
  then show ?thesis by (simp add: dumps_str_def)
qed

lemma parse_members_more:
  "parse_members (Suc (Suc n)) acc
     (dumps_str k @ CHR '':'' # CHR '' '' # dumps_str v @ CHR '','' # CHR '' '' # tl0)
   = parse_members (Suc n) (acc @ [(ustr k, JStr (ustr v))]) (skip_ws tl0)"
proof -
  have "parse_members (Suc (Suc n)) acc
          (dquote # concat (map escape_char k) @ dquote # '': '' @ dumps_str v @ '', '' @ tl0)
        = parse_members (Suc n) (acc @ [(ustr k, JStr (ustr v))]) (skip_ws tl0)"
    by (subst parse_members.simps(2))
      (simp add: scan_string_escaped skip_ws_colon skip_ws_space skip_ws_comma
        skip_ws_dumps_str parse_value_dumps_str del: parse_value.simps parse_members.simps)
  then show ?thesis by (simp add: dumps_str_def)
qed

lemma length_dumps_query: "\<exists>n. 2 * length (dumps_query c v) = Suc (Suc (Suc n))"
proof -
  have "2 \<le> length (dumps_query c v)" by (simp add: dumps_query_def dumps_str_def)
  then have "2 * length (dumps_query c v) = Suc (Suc (Suc (2 * length (dumps_query c v) - 3)))"
    by arith
  then show ?thesis by blast
qed

lemma json_loads_dumps_query:
  "json_loads (dumps_query c v) = Inr (JObj [(ustr ''target_column'', JStr (ustr c)), (ustr ''filter_value'', JStr (ustr v))])"
proof -
  obtain n where n: "2 * length (dumps_query c v) = Suc (Suc (Suc n))"
    using length_dumps_query by blast
  let ?body = "dumps_str ''target_column'' @ '': '' @ dumps_str c @ '', '' @
     dumps_str ''filter_value'' @ '': '' @ dumps_str v @ ''}'' @ []"
  have q: "dumps_query c v = CHR ''{'' # ?body"
    by (simp add: dumps_query_def)
  have m: "parse_members (Suc (Suc (Suc n))) [] ?body
      = Inr (JObj [(ustr ''target_column'', JStr (ustr c)), (ustr ''filter_value'', JStr (ustr v))], [])"
    by (simp add: parse_members_more parse_members_last skip_ws_dumps_str
        del: parse_members.simps parse_value.simps)
  have hd: "hd ?body = dquote" "?body \<noteq> []"
    by (simp_all add: dumps_str_def)
  have v: "parse_value (Suc (Suc (Suc (Suc n)))) (CHR ''{'' # ?body)
      = Inr (JObj [(ustr ''target_column'', JStr (ustr c)), (ustr ''filter_value'', JStr (ustr v))], [])"
    using m hd by (simp add: skip_ws_dumps_str dquote_def del: parse_members.simps)
  have sk: "skip_ws (dumps_query c v) = dumps_query c v"
    by (simp add: q skip_ws_lbrace)
  show ?thesis
    unfolding json_loads_def sk Let_def n
    using v by (simp add: q skip_ws_def del: parse_value.simps)
qed

lemma search_braces_dumps_query: "search_braces (dumps_query c v) = Some (dumps_query c v)"
proof -
  obtain body where b: "dumps_query c v = CHR ''{'' # body @ ''}''"
    by (simp add: dumps_query_def)
  show ?thesis unfolding b by (simp add: search_braces_def)
qed

subsection \<open>The budget of the reader\<close>

text \<open>A value that is read leaves less text than it was given, a budget above twice the length of the text is never used up, and the one error of the reader is the decoding error.\<close>

lemma cons_fst_Inr:
  "cons_fst c x = Inr (t, r) \<Longrightarrow> \<exists>t'. x = Inr (t', r) \<and> t = c # t'"
  by (auto simp: cons_fst_def split: sum.splits)

lemma cons_fst_Inl: "cons_fst c x = Inl e \<Longrightarrow> x = Inl e"
  by (auto simp: cons_fst_def split: sum.splits)

lemma case4_short:
  "length xs < 4 \<Longrightarrow> (case xs of a # b # c # d # r \<Rightarrow> F a b c d r | _ \<Rightarrow> X) = X"
  by (auto split: list.splits)

lemma case6_short:
  "length xs < 6 \<Longrightarrow> (case xs of a # b # c # d # e # f # r \<Rightarrow> F a b c d e f r | _ \<Rightarrow> X) = X"
  by (auto split: list.splits)

lemma list4: "\<not> length xs < 4 \<Longrightarrow> \<exists>a b c d r. xs = a # b # c # d # r"
  by (auto simp: not_less numeral_eq_Suc Suc_le_length_iff)

lemma list6: "\<not> length xs < 6 \<Longrightarrow> \<exists>a b c d e f r. xs = a # b # c # d # e # f # r"
  by (auto simp: not_less numeral_eq_Suc Suc_le_length_iff)

lemma scan_string_step:
  "scan_string (c # cs) = Inr ([], cs) \<or> scan_string (c # cs) = Inl JSONDecodeError \<or>
   (\<exists>n rest. length rest \<le> length cs \<and> scan_string (c # cs) = cons_fst n (scan_string rest))"
proof (cases "c = dquote")
  case True
  then show ?thesis by simp
next
  case nq: False
  show ?thesis
  proof (cases "c = bslash")
    case nb: False
    have "scan_string (c # cs) =
        (if (of_char c :: nat) < 32 then Inl JSONDecodeError
         else cons_fst (of_char c) (scan_string cs))"
      using nq nb by simp
    then show ?thesis by (metis order_refl)
  next
    case b: True
    show ?thesis
    proof (cases cs)
      case Nil
      then show ?thesis using nq b by simp
    next
      case (Cons e es)
      show ?thesis
      proof (cases "e = CHR ''u''")
        case False
        have "scan_string (c # cs) =
            (case simple_escape e of
               None \<Rightarrow> Inl JSONDecodeError
             | Some ch \<Rightarrow> cons_fst (of_char ch) (scan_string es))"
          using nq b Cons False by simp
        moreover have "length es \<le> length cs" using Cons by simp
        ultimately show ?thesis by (cases "simple_escape e") auto
      next
        case u: True
        show ?thesis
        proof (cases "length es < 4")
          case True
          then have "scan_string (c # cs) = Inl JSONDecodeError"
            using nq b Cons u by (simp add: case4_short)
          then show ?thesis by blast
        next
          case False
          then obtain h1 h2 h3 h4 rest where es: "es = h1 # h2 # h3 # h4 # rest"
            using list4 by blast
          have lr: "length rest \<le> length cs" using Cons es by simp
          show ?thesis
          proof (cases "hex4 h1 h2 h3 h4")
            case None
            then have "scan_string (c # cs) = Inl JSONDecodeError"
              using nq b Cons u es by simp
            then show ?thesis by blast
          next
            case (Some n)
            show ?thesis
            proof (cases "is_high_surrogate n")
              case nh: False
              then have "scan_string (c # cs) = cons_fst n (scan_string rest)"
                using nq b Cons u es Some by simp
              then show ?thesis using lr by blast
            next
              case hi: True
              show ?thesis
              proof (cases "length rest < 6")
                case True
                then have "scan_string (c # cs) = cons_fst n (scan_string rest)"
                  using nq b Cons u es Some hi by (simp add: case6_short)
                then show ?thesis using lr by blast
              next
                case False
                then obtain b2 u2 g1 g2 g3 g4 rest2 where
                  rest: "rest = b2 # u2 # g1 # g2 # g3 # g4 # rest2"
                  using list6 by blast
                have lr2: "length rest2 \<le> length cs" using lr rest by simp
                have eq: "scan_string (c # cs) =
                    (if b2 = bslash \<and> u2 = CHR ''u'' then
                       (case hex4 g1 g2 g3 g4 of
                          None \<Rightarrow> Inl JSONDecodeError
                        | Some m \<Rightarrow>
                            (if is_low_surrogate m
                             then cons_fst (join_surrogates n m) (scan_string rest2)
                             else cons_fst n (scan_string rest)))
                     else cons_fst n (scan_string rest))"
                  using nq b Cons u es Some hi unfolding rest by simp
                show ?thesis
                proof (cases "b2 = bslash \<and> u2 = CHR ''u''")
                  case False
                  then have "scan_string (c # cs) = cons_fst n (scan_string rest)"
                    using eq by auto
                  then show ?thesis using lr by blast
                next
                  case True
                  show ?thesis
                  proof (cases "hex4 g1 g2 g3 g4")
                    case None
                    then have "scan_string (c # cs) = Inl JSONDecodeError"
                      using eq True by simp
                    then show ?thesis by blast
                  next
                    case (Some m)
                    show ?thesis
                    proof (cases "is_low_surrogate m")
                      case True
                      then have "scan_string (c # cs) = cons_fst (join_surrogates n m) (scan_string rest2)"
                        using eq \<open>b2 = bslash \<and> u2 = CHR ''u''\<close> Some by simp
                      then show ?thesis using lr2 by blast
                    next
                      case False
                      then have "scan_string (c # cs) = cons_fst n (scan_string rest)"
                        using eq \<open>b2 = bslash \<and> u2 = CHR ''u''\<close> Some by simp
                      then show ?thesis using lr by blast
                    qed
                  qed
                qed
              qed
            qed
          qed
        qed
      qed
    qed
  qed
qed

lemma scan_string_shorter: "scan_string s = Inr (t, r) \<Longrightarrow> length r < length s"
proof (induction "length s" arbitrary: s t r rule: less_induct)
  case less
  obtain c cs where s: "s = c # cs" using less.prems by (cases s) auto
  from scan_string_step[of c cs] show ?case
  proof (elim disjE exE conjE)
    assume "scan_string (c # cs) = Inr ([], cs)"
    then show ?thesis using less.prems s by simp
  next
    assume "scan_string (c # cs) = Inl JSONDecodeError"
    then show ?thesis using less.prems s by simp
  next
    fix n rest
    assume l: "length rest \<le> length cs"
      and e: "scan_string (c # cs) = cons_fst n (scan_string rest)"
    then have "cons_fst n (scan_string rest) = Inr (t, r)" using less.prems s by simp
    then obtain t' where "scan_string rest = Inr (t', r)" using cons_fst_Inr by blast
    then have "length r < length rest" using less.hyps[of rest t' r] l s by simp
    then show ?thesis using l s by simp
  qed
qed

lemma scan_string_error: "scan_string s = Inl e \<Longrightarrow> e = JSONDecodeError"
proof (induction "length s" arbitrary: s rule: less_induct)
  case less
  show ?case
  proof (cases s)
    case Nil
    then show ?thesis using less.prems by simp
  next
    case (Cons c cs)
    from scan_string_step[of c cs] show ?thesis
    proof (elim disjE exE conjE)
      assume "scan_string (c # cs) = Inr ([], cs)"
      then show ?thesis using less.prems Cons by simp
    next
      assume "scan_string (c # cs) = Inl JSONDecodeError"
      then show ?thesis using less.prems Cons by simp
    next
      fix n rest
      assume l: "length rest \<le> length cs"
        and e: "scan_string (c # cs) = cons_fst n (scan_string rest)"
      then have "cons_fst n (scan_string rest) = Inl e" using less.prems Cons by simp
      then have "scan_string rest = Inl e" by (rule cons_fst_Inl)
      then show ?thesis using less.hyps[of rest] l Cons by simp
    qed
  qed
qed

lemma scan_string_no_fuel: "scan_string s \<noteq> Inl OutOfFuel"
  using scan_string_error by fastforce

lemma length_skip_ws: "length (skip_ws s) \<le> length s"
  by (simp add: skip_ws_def length_dropWhile_le)

lemma scan_frac_le: "scan_frac s = (f, r) \<Longrightarrow> length r \<le> length s"
  by (auto simp: scan_frac_def length_dropWhile_le le_SucI split: list.splits if_splits)

lemma scan_exp_le: "scan_exp s = (f, r) \<Longrightarrow> length r \<le> length s"
proof -
  assume a: "scan_exp s = (f, r)"
  have d: "\<And>xs. length (dropWhile is_digit xs) \<le> length xs" by (rule length_dropWhile_le)
  show ?thesis
  proof (cases "r = s")
    case True then show ?thesis by simp
  next
    case False
    then obtain e r0 where s: "s = e # r0" using a by (cases s) (auto simp: scan_exp_def)
    have "r = dropWhile is_digit r0 \<or> (\<exists>g gs. r0 = g # gs \<and> r = dropWhile is_digit gs)"
      using a False unfolding s scan_exp_def
      by (auto simp: Let_def split: if_splits list.splits prod.splits)
    then show ?thesis using d[of r0] s
      by (auto intro: le_SucI order_trans[OF d])
  qed
qed

lemma scan_number_shorter: "scan_number s = Some (lx, r) \<Longrightarrow> length r < length s"
proof -
  assume a: "scan_number s = Some (lx, r)"
  define s1 where "s1 = (case s of [] \<Rightarrow> s | c # cs \<Rightarrow> (if c = CHR ''-'' then cs else s))"
  have s1: "length s1 \<le> length s" unfolding s1_def by (auto split: list.splits)
  obtain c cs where c: "s1 = c # cs" "is_digit c"
    using a unfolding scan_number_def s1_def
    by (auto simp: Let_def split: list.splits if_splits prod.splits)
  define r1 where "r1 = (if c = CHR ''0'' then cs else dropWhile is_digit cs)"
  have r1: "length r1 \<le> length cs" unfolding r1_def by (simp add: length_dropWhile_le)
  obtain fp r2 where f: "scan_frac r1 = (fp, r2)" by (cases "scan_frac r1")
  obtain ep r3 where e: "scan_exp r2 = (ep, r3)" by (cases "scan_exp r2")
  have "r = r3"
    using a c f e unfolding scan_number_def s1_def r1_def
    by (auto simp: Let_def split: list.splits if_splits prod.splits)
  moreover have "length r3 \<le> length r1"
    using scan_frac_le[OF f] scan_exp_le[OF e] by simp
  ultimately show ?thesis using r1 s1 c(1) by simp
qed

lemma skip_ws_Cons_le: "skip_ws s = e # es \<Longrightarrow> length es < length s"
  using length_skip_ws[of s] by simp

lemma value_shorter_step:
  assumes IHm: "\<And>acc s v r. parse_members n acc s = Inr (v, r) \<Longrightarrow> length r < length s"
    and IHe: "\<And>acc s v r. parse_elems n acc s = Inr (v, r) \<Longrightarrow> length r < length s"
    and p: "parse_value (Suc n) s = Inr (v, r)"
  shows "length r < length s"
proof -
  obtain c cs where s: "s = c # cs" using p by (cases s) auto
  consider (str) "c = dquote"
    | (obj) "c \<noteq> dquote" "c = CHR ''{''"
    | (arr) "c \<noteq> dquote" "c \<noteq> CHR ''{''" "c = CHR ''[''"
    | (lit) "c \<noteq> dquote" "c \<noteq> CHR ''{''" "c \<noteq> CHR ''[''"
    by blast
  then show ?thesis
  proof cases
    case str
    then obtain t where "scan_string cs = Inr (t, r)"
      using p s by (auto split: sum.splits)
    then show ?thesis using scan_string_shorter s by fastforce
  next
    case obj
    let ?r0 = "skip_ws cs"
    show ?thesis
    proof (cases "?r0 \<noteq> [] \<and> hd ?r0 = CHR ''}''")
      case True
      then have "r = tl ?r0" using p s obj by (simp add: Let_def)
      then have "length r < length ?r0" using True by simp
      then show ?thesis using length_skip_ws[of cs] s by simp
    next
      case False
      then have "parse_members n [] ?r0 = Inr (v, r)" using p s obj by (auto simp: Let_def)
      then have "length r < length ?r0" by (rule IHm)
      then show ?thesis using length_skip_ws[of cs] s by simp
    qed
  next
    case arr
    let ?r0 = "skip_ws cs"
    show ?thesis
    proof (cases "?r0 \<noteq> [] \<and> hd ?r0 = CHR '']''")
      case True
      then have "r = tl ?r0" using p s arr by (simp add: Let_def)
      then have "length r < length ?r0" using True by simp
      then show ?thesis using length_skip_ws[of cs] s by simp
    next
      case False
      then have "parse_elems n [] ?r0 = Inr (v, r)" using p s arr by (auto simp: Let_def)
      then have "length r < length ?r0" by (rule IHe)
      then show ?thesis using length_skip_ws[of cs] s by simp
    qed
  next
    case lit
    have q: "(if prefix ''null'' s then Inr (JNull, drop 4 s)
           else if prefix ''true'' s then Inr (JBool True, drop 4 s)
           else if prefix ''false'' s then Inr (JBool False, drop 5 s)
           else
             (case scan_number s of
                Some (lx, r) \<Rightarrow> Inr (JNum lx, r)
              | None \<Rightarrow>
                  (if prefix ''NaN'' s then Inr (JNum ''NaN'', drop 3 s)
                   else if prefix ''Infinity'' s then Inr (JNum ''Infinity'', drop 8 s)
                   else if prefix ''-Infinity'' s then Inr (JNum ''-Infinity'', drop 9 s)
                   else Inl JSONDecodeError))) = Inr (v, r)"
      using p lit unfolding s by simp
    have ne: "0 < length s" using s by simp
    show ?thesis
    proof (cases "prefix ''null'' s \<or> prefix ''true'' s \<or> prefix ''false'' s")
      case True
      then show ?thesis using q ne
        by (auto split: if_splits)
    next
      case False
      show ?thesis
      proof (cases "scan_number s")
        case (Some a)
        then obtain lx r' where "a = (lx, r')" by (cases a)
        then have "scan_number s = Some (lx, r)" using q False Some by auto
        then show ?thesis by (rule scan_number_shorter)
      next
        case None
        then show ?thesis
          using q False ne
          by (auto split: if_splits)
      qed
    qed
  qed
qed

lemma members_shorter_step:
  assumes IHv: "\<And>s v r. parse_value n s = Inr (v, r) \<Longrightarrow> length r < length s"
    and IHm: "\<And>acc s v r. parse_members n acc s = Inr (v, r) \<Longrightarrow> length r < length s"
    and p: "parse_members (Suc n) acc s = Inr (v, r)"
  shows "length r < length s"
proof -
  obtain c cs where s: "s = c # cs" and c: "c = dquote"
    using p by (cases s) (auto split: if_splits)
  obtain k r1 where k: "scan_string cs = Inr (k, r1)"
    using p s c by (auto split: sum.splits)
  obtain d ds where d: "skip_ws r1 = d # ds" "d = CHR '':''"
    using p s c k by (auto split: list.splits if_splits)
  obtain v1 r2 where v1: "parse_value n (skip_ws ds) = Inr (v1, r2)"
    using p s c k d by (auto split: sum.splits)
  obtain e es where e: "skip_ws r2 = e # es"
    using p s c k d v1 by (auto split: list.splits)
  have l1: "length r1 < length cs" using k by (rule scan_string_shorter)
  have l2: "length ds < length r1" using d(1) by (rule skip_ws_Cons_le)
  have l3: "length r2 < length ds"
    using IHv[OF v1] length_skip_ws[of ds] by simp
  have l4: "length es < length r2" using e by (rule skip_ws_Cons_le)
  have "r = es \<or> parse_members n (acc @ [(k, v1)]) (skip_ws es) = Inr (v, r)"
    using p s c k d v1 e by (auto split: if_splits)
  then have "length r \<le> length es"
  proof
    assume "r = es" then show ?thesis by simp
  next
    assume "parse_members n (acc @ [(k, v1)]) (skip_ws es) = Inr (v, r)"
    then have "length r < length (skip_ws es)" by (rule IHm)
    then show ?thesis using length_skip_ws[of es] by simp
  qed
  then show ?thesis using l1 l2 l3 l4 s by simp
qed

lemma elems_shorter_step:
  assumes IHv: "\<And>s v r. parse_value n s = Inr (v, r) \<Longrightarrow> length r < length s"
    and IHe: "\<And>acc s v r. parse_elems n acc s = Inr (v, r) \<Longrightarrow> length r < length s"
    and p: "parse_elems (Suc n) acc s = Inr (v, r)"
  shows "length r < length s"
proof -
  obtain v1 r1 where v1: "parse_value n s = Inr (v1, r1)"
    using p by (auto split: sum.splits)
  obtain e es where e: "skip_ws r1 = e # es"
    using p v1 by (auto split: list.splits)
  have l1: "length r1 < length s" using v1 by (rule IHv)
  have l2: "length es < length r1" using e by (rule skip_ws_Cons_le)
  have "r = es \<or> parse_elems n (acc @ [v1]) (skip_ws es) = Inr (v, r)"
    using p v1 e by (auto split: if_splits)
  then have "length r \<le> length es"
  proof
    assume "r = es" then show ?thesis by simp
  next
    assume "parse_elems n (acc @ [v1]) (skip_ws es) = Inr (v, r)"
    then have "length r < length (skip_ws es)" by (rule IHe)
    then show ?thesis using length_skip_ws[of es] by simp
  qed
  then show ?thesis using l1 l2 by simp
qed

lemma parse_shorter_all:
  "(\<forall>s v r. parse_value n s = Inr (v, r) \<longrightarrow> length r < length s) \<and>
   (\<forall>acc s v r. parse_members n acc s = Inr (v, r) \<longrightarrow> length r < length s) \<and>
   (\<forall>acc s v r. parse_elems n acc s = Inr (v, r) \<longrightarrow> length r < length s)"
proof (induction n)
  case 0
  then show ?case by simp
next
  case (Suc n)
  have v: "\<And>s v r. parse_value n s = Inr (v, r) \<Longrightarrow> length r < length s"
    and m: "\<And>acc s v r. parse_members n acc s = Inr (v, r) \<Longrightarrow> length r < length s"
    and e: "\<And>acc s v r. parse_elems n acc s = Inr (v, r) \<Longrightarrow> length r < length s"
    using Suc.IH by blast+
  show ?case
  proof (intro conjI allI impI)
    fix s v r
    assume "parse_value (Suc n) s = Inr (v, r)"
    with m e show "length r < length s" by (rule value_shorter_step[of n])
  next
    fix acc s v r
    assume "parse_members (Suc n) acc s = Inr (v, r)"
    with v m show "length r < length s" by (rule members_shorter_step[of n])
  next
    fix acc s v' r
    assume "parse_elems (Suc n) acc s = Inr (v', r)"
    with v e show "length r < length s" by (rule elems_shorter_step[of n])
  qed
qed

lemma parse_value_shorter: "parse_value n s = Inr (v, r) \<Longrightarrow> length r < length s"
  using parse_shorter_all by blast

lemma value_fuel_step:
  assumes IHm: "\<And>acc s. 2 * length s < n \<Longrightarrow> parse_members n acc s \<noteq> Inl OutOfFuel"
    and IHe: "\<And>acc s. 2 * length s + 1 < n \<Longrightarrow> parse_elems n acc s \<noteq> Inl OutOfFuel"
    and l: "2 * length s < Suc n"
  shows "parse_value (Suc n) s \<noteq> Inl OutOfFuel"
proof
  assume a: "parse_value (Suc n) s = Inl OutOfFuel"
  then obtain c cs where s: "s = c # cs" by (cases s) auto
  have len: "2 * length (skip_ws cs) + 1 < n"
    using l length_skip_ws[of cs] s by simp
  consider (str) "c = dquote"
    | (obj) "c \<noteq> dquote" "c = CHR ''{''"
    | (arr) "c \<noteq> dquote" "c \<noteq> CHR ''{''" "c = CHR ''[''"
    | (lit) "c \<noteq> dquote" "c \<noteq> CHR ''{''" "c \<noteq> CHR ''[''"
    by blast
  then show False
  proof cases
    case str
    then have "scan_string cs = Inl OutOfFuel"
      using a s by (auto split: sum.splits)
    then show ?thesis using scan_string_no_fuel by blast
  next
    case obj
    then have "parse_members n [] (skip_ws cs) = Inl OutOfFuel"
      using a s by (auto simp: Let_def split: if_splits)
    moreover have "2 * length (skip_ws cs) < n" using len by simp
    ultimately show ?thesis using IHm by blast
  next
    case arr
    then have "parse_elems n [] (skip_ws cs) = Inl OutOfFuel"
      using a s by (auto simp: Let_def split: if_splits)
    then show ?thesis using IHe[OF len] by blast
  next
    case lit
    have "(if prefix ''null'' s then Inr (JNull, drop 4 s)
           else if prefix ''true'' s then Inr (JBool True, drop 4 s)
           else if prefix ''false'' s then Inr (JBool False, drop 5 s)
           else
             (case scan_number s of
                Some (lx, r) \<Rightarrow> Inr (JNum lx, r)
              | None \<Rightarrow>
                  (if prefix ''NaN'' s then Inr (JNum ''NaN'', drop 3 s)
                   else if prefix ''Infinity'' s then Inr (JNum ''Infinity'', drop 8 s)
                   else if prefix ''-Infinity'' s then Inr (JNum ''-Infinity'', drop 9 s)
                   else Inl JSONDecodeError))) = Inl OutOfFuel"
      using a lit unfolding s by simp
    then show ?thesis by (auto split: if_splits option.splits)
  qed
qed

lemma members_fuel_step:
  assumes IHv: "\<And>s. 2 * length s < n \<Longrightarrow> parse_value n s \<noteq> Inl OutOfFuel"
    and IHm: "\<And>acc s. 2 * length s < n \<Longrightarrow> parse_members n acc s \<noteq> Inl OutOfFuel"
    and l: "2 * length s < Suc n"
  shows "parse_members (Suc n) acc s \<noteq> Inl OutOfFuel"
proof
  assume a: "parse_members (Suc n) acc s = Inl OutOfFuel"
  then obtain c cs where s: "s = c # cs" and c: "c = dquote"
    by (cases s) (auto split: if_splits)
  have "scan_string cs \<noteq> Inl OutOfFuel" by (rule scan_string_no_fuel)
  then obtain k r1 where k: "scan_string cs = Inr (k, r1)"
    using a s c by (auto split: sum.splits)
  obtain d ds where d: "skip_ws r1 = d # ds" "d = CHR '':''"
    using a s c k by (auto split: list.splits if_splits)
  have l1: "length r1 < length cs" using k by (rule scan_string_shorter)
  have l2: "length ds < length r1" using d(1) by (rule skip_ws_Cons_le)
  have lv: "2 * length (skip_ws ds) < n"
    using l l1 l2 length_skip_ws[of ds] s by simp
  have "parse_value n (skip_ws ds) \<noteq> Inl OutOfFuel" using lv by (rule IHv)
  then obtain v1 r2 where v1: "parse_value n (skip_ws ds) = Inr (v1, r2)"
    using a s c k d by (auto split: sum.splits)
  obtain e es where e: "skip_ws r2 = e # es"
    using a s c k d v1 by (auto split: list.splits)
  have l3: "length r2 < length (skip_ws ds)" using v1 by (rule parse_value_shorter)
  have l4: "length es < length r2" using e by (rule skip_ws_Cons_le)
  have "parse_members n (acc @ [(k, v1)]) (skip_ws es) = Inl OutOfFuel"
    using a s c k d v1 e by (auto split: if_splits)
  moreover have "2 * length (skip_ws es) < n"
    using lv l3 l4 length_skip_ws[of es] by simp
  ultimately show False using IHm by blast
qed

lemma elems_fuel_step:
  assumes IHv: "\<And>s. 2 * length s < n \<Longrightarrow> parse_value n s \<noteq> Inl OutOfFuel"
    and IHe: "\<And>acc s. 2 * length s + 1 < n \<Longrightarrow> parse_elems n acc s \<noteq> Inl OutOfFuel"
    and l: "2 * length s + 1 < Suc n"
  shows "parse_elems (Suc n) acc s \<noteq> Inl OutOfFuel"
proof
  assume a: "parse_elems (Suc n) acc s = Inl OutOfFuel"
  have lv: "2 * length s < n" using l by simp
  have "parse_value n s \<noteq> Inl OutOfFuel" using lv by (rule IHv)
  then obtain v1 r1 where v1: "parse_value n s = Inr (v1, r1)"
    using a by (auto split: sum.splits)
  obtain e es where e: "skip_ws r1 = e # es"
    using a v1 by (auto split: list.splits)
  have l1: "length r1 < length s" using v1 by (rule parse_value_shorter)
  have l2: "length es < length r1" using e by (rule skip_ws_Cons_le)
  have "parse_elems n (acc @ [v1]) (skip_ws es) = Inl OutOfFuel"
    using a v1 e by (auto split: if_splits)
  moreover have "2 * length (skip_ws es) + 1 < n"
    using lv l1 l2 length_skip_ws[of es] by simp
  ultimately show False using IHe by blast
qed

lemma parse_fuel_all:
  "(\<forall>s. 2 * length s < n \<longrightarrow> parse_value n s \<noteq> Inl OutOfFuel) \<and>
   (\<forall>acc s. 2 * length s < n \<longrightarrow> parse_members n acc s \<noteq> Inl OutOfFuel) \<and>
   (\<forall>acc s. 2 * length s + 1 < n \<longrightarrow> parse_elems n acc s \<noteq> Inl OutOfFuel)"
proof (induction n)
  case 0
  then show ?case by simp
next
  case (Suc n)
  have v: "\<And>s. 2 * length s < n \<Longrightarrow> parse_value n s \<noteq> Inl OutOfFuel"
    and m: "\<And>acc s. 2 * length s < n \<Longrightarrow> parse_members n acc s \<noteq> Inl OutOfFuel"
    and e: "\<And>acc s. 2 * length s + 1 < n \<Longrightarrow> parse_elems n acc s \<noteq> Inl OutOfFuel"
    using Suc.IH by blast+
  show ?case
  proof (intro conjI allI impI)
    fix s :: string
    assume "2 * length s < Suc n"
    with m e show "parse_value (Suc n) s \<noteq> Inl OutOfFuel" by (rule value_fuel_step[of n])
  next
    fix acc and s :: string
    assume "2 * length s < Suc n"
    with v m show "parse_members (Suc n) acc s \<noteq> Inl OutOfFuel"
      by (rule members_fuel_step[of n])
  next
    fix acc and s :: string
    assume "2 * length s + 1 < Suc n"
    with v e show "parse_elems (Suc n) acc s \<noteq> Inl OutOfFuel"
      by (rule elems_fuel_step[of n])
  qed
qed

lemma json_loads_fuel: "json_loads s \<noteq> Inl OutOfFuel"
proof -
  have "parse_value (Suc (2 * length (skip_ws s))) (skip_ws s) \<noteq> Inl OutOfFuel"
    using parse_fuel_all[of "Suc (2 * length (skip_ws s))"] by simp
  then show ?thesis
    unfolding json_loads_def Let_def
    by (cases "parse_value (Suc (2 * length (skip_ws s))) (skip_ws s)")
       (auto simp del: parse_value.simps split: prod.splits if_splits)
qed

lemma value_error_step:
  assumes IHm: "\<And>acc s e. parse_members n acc s = Inl e \<Longrightarrow> e = JSONDecodeError \<or> e = OutOfFuel"
    and IHe: "\<And>acc s e. parse_elems n acc s = Inl e \<Longrightarrow> e = JSONDecodeError \<or> e = OutOfFuel"
    and a: "parse_value (Suc n) s = Inl e"
  shows "e = JSONDecodeError \<or> e = OutOfFuel"
proof (cases s)
  case Nil
  then show ?thesis using a by simp
next
  case (Cons c cs)
  consider (str) "c = dquote"
    | (obj) "c \<noteq> dquote" "c = CHR ''{''"
    | (arr) "c \<noteq> dquote" "c \<noteq> CHR ''{''" "c = CHR ''[''"
    | (lit) "c \<noteq> dquote" "c \<noteq> CHR ''{''" "c \<noteq> CHR ''[''"
    by blast
  then show ?thesis
  proof cases
    case str
    then have "scan_string cs = Inl e"
      using a Cons by (auto split: sum.splits)
    then show ?thesis using scan_string_error by blast
  next
    case obj
    then have "parse_members n [] (skip_ws cs) = Inl e"
      using a Cons by (auto simp: Let_def split: if_splits)
    then show ?thesis using IHm by blast
  next
    case arr
    then have "parse_elems n [] (skip_ws cs) = Inl e"
      using a Cons by (auto simp: Let_def split: if_splits)
    then show ?thesis using IHe by blast
  next
    case lit
    have "(if prefix ''null'' s then Inr (JNull, drop 4 s)
           else if prefix ''true'' s then Inr (JBool True, drop 4 s)
           else if prefix ''false'' s then Inr (JBool False, drop 5 s)
           else
             (case scan_number s of
                Some (lx, r) \<Rightarrow> Inr (JNum lx, r)
              | None \<Rightarrow>
                  (if prefix ''NaN'' s then Inr (JNum ''NaN'', drop 3 s)
                   else if prefix ''Infinity'' s then Inr (JNum ''Infinity'', drop 8 s)
                   else if prefix ''-Infinity'' s then Inr (JNum ''-Infinity'', drop 9 s)
                   else Inl JSONDecodeError))) = Inl e"
      using a lit unfolding Cons by simp
    then show ?thesis by (auto split: if_splits option.splits)
  qed
qed

lemma members_error_step:
  assumes IHv: "\<And>s e. parse_value n s = Inl e \<Longrightarrow> e = JSONDecodeError \<or> e = OutOfFuel"
    and IHm: "\<And>acc s e. parse_members n acc s = Inl e \<Longrightarrow> e = JSONDecodeError \<or> e = OutOfFuel"
    and a: "parse_members (Suc n) acc s = Inl e"
  shows "e = JSONDecodeError \<or> e = OutOfFuel"
proof (rule ccontr)
  assume ne: "\<not> (e = JSONDecodeError \<or> e = OutOfFuel)"
  obtain c cs where s: "s = c # cs" using a ne by (cases s) auto
  have c: "c = dquote" using a ne s by (auto split: if_splits)
  obtain k r where k: "scan_string cs = Inr (k, r)"
    using a ne s c scan_string_error[of cs] by (cases "scan_string cs") auto
  obtain d ds where d: "skip_ws r = d # ds"
    using a ne s c k by (cases "skip_ws r") auto
  have dc: "d = CHR '':''" using a ne s c k d by (auto split: if_splits)
  obtain v r2 where v: "parse_value n (skip_ws ds) = Inr (v, r2)"
    using a ne s c k d dc IHv[of "skip_ws ds"] by (cases "parse_value n (skip_ws ds)") auto
  obtain x xs where x: "skip_ws r2 = x # xs"
    using a ne s c k d dc v by (cases "skip_ws r2") auto
  have "parse_members n (acc @ [(k, v)]) (skip_ws xs) = Inl e"
    using a ne s c k d dc v x by (auto split: if_splits)
  then show False using IHm ne by blast
qed

lemma elems_error_step:
  assumes IHv: "\<And>s e. parse_value n s = Inl e \<Longrightarrow> e = JSONDecodeError \<or> e = OutOfFuel"
    and IHe: "\<And>acc s e. parse_elems n acc s = Inl e \<Longrightarrow> e = JSONDecodeError \<or> e = OutOfFuel"
    and a: "parse_elems (Suc n) acc s = Inl e"
  shows "e = JSONDecodeError \<or> e = OutOfFuel"
proof (rule ccontr)
  assume ne: "\<not> (e = JSONDecodeError \<or> e = OutOfFuel)"
  obtain v r where v: "parse_value n s = Inr (v, r)"
    using a ne IHv[of s] by (cases "parse_value n s") auto
  obtain x xs where x: "skip_ws r = x # xs"
    using a ne v by (cases "skip_ws r") auto
  have "parse_elems n (acc @ [v]) (skip_ws xs) = Inl e"
    using a ne v x by (auto split: if_splits)
  then show False using IHe ne by blast
qed

lemma parse_error_all:
  "(\<forall>s e. parse_value n s = Inl e \<longrightarrow> e = JSONDecodeError \<or> e = OutOfFuel) \<and>
   (\<forall>acc s e. parse_members n acc s = Inl e \<longrightarrow> e = JSONDecodeError \<or> e = OutOfFuel) \<and>
   (\<forall>acc s e. parse_elems n acc s = Inl e \<longrightarrow> e = JSONDecodeError \<or> e = OutOfFuel)"
proof (induction n)
  case 0
  then show ?case by simp
next
  case (Suc n)
  have v: "\<And>s e. parse_value n s = Inl e \<Longrightarrow> e = JSONDecodeError \<or> e = OutOfFuel"
    and m: "\<And>acc s e. parse_members n acc s = Inl e \<Longrightarrow> e = JSONDecodeError \<or> e = OutOfFuel"
    and e: "\<And>acc s e. parse_elems n acc s = Inl e \<Longrightarrow> e = JSONDecodeError \<or> e = OutOfFuel"
    using Suc.IH by blast+
  show ?case
  proof (intro conjI allI impI)
    fix s :: string and x
    assume "parse_value (Suc n) s = Inl x"
    with m e show "x = JSONDecodeError \<or> x = OutOfFuel" by (rule value_error_step[of n])
  next
    fix acc and s :: string and x
    assume "parse_members (Suc n) acc s = Inl x"
    with v m show "x = JSONDecodeError \<or> x = OutOfFuel" by (rule members_error_step[of n])
  next
    fix acc and s :: string and x
    assume "parse_elems (Suc n) acc s = Inl x"
    with v e show "x = JSONDecodeError \<or> x = OutOfFuel" by (rule elems_error_step[of n])
  qed
qed

lemma json_loads_error: "json_loads s = Inl e \<Longrightarrow> e = JSONDecodeError"
proof -
  assume a: "json_loads s = Inl e"
  have "e = JSONDecodeError \<or> e = OutOfFuel"
  proof (cases "parse_value (Suc (2 * length (skip_ws s))) (skip_ws s)")
    case (Inl x)
    then have "x = e" using a unfolding json_loads_def Let_def
      by (simp del: parse_value.simps)
    then show ?thesis using Inl parse_error_all[of "Suc (2 * length (skip_ws s))"] by blast
  next
    case (Inr p)
    then show ?thesis using a unfolding json_loads_def Let_def
      by (auto simp del: parse_value.simps split: prod.splits if_splits)
  qed
  then show ?thesis using json_loads_fuel[of s] a by auto
qed

subsection \<open>The search for the braces\<close>

lemma search_braces_Some:
  assumes "raw = pre @ CHR ''{'' # mid @ CHR ''}'' # post"
    and "CHR ''{'' \<notin> set pre" and "CHR ''}'' \<notin> set post"
  shows "search_braces raw = Some (CHR ''{'' # mid @ [CHR ''}''])"
proof -
  have t: "dropWhile (\<lambda>c. c \<noteq> CHR ''{'') raw = CHR ''{'' # mid @ CHR ''}'' # post"
    unfolding assms(1) using assms(2) by (auto simp: dropWhile_append3)
  have "rev (CHR ''{'' # mid @ CHR ''}'' # post) = rev post @ CHR ''}'' # rev mid @ [CHR ''{'']"
    by simp
  then have "dropWhile (\<lambda>c. c \<noteq> CHR ''}'') (rev (CHR ''{'' # mid @ CHR ''}'' # post))
      = CHR ''}'' # rev mid @ [CHR ''{'']"
    using assms(3) by (auto simp: dropWhile_append3)
  then show ?thesis unfolding search_braces_def Let_def t by simp
qed

lemma search_braces_None:
  assumes "\<not> (\<exists>pre mid post. raw = pre @ CHR ''{'' # mid @ CHR ''}'' # post)"
  shows "search_braces raw = None"
proof (rule ccontr)
  assume "search_braces raw \<noteq> None"
  then have u: "rev (dropWhile (\<lambda>c. c \<noteq> CHR ''}'') (rev (dropWhile (\<lambda>c. c \<noteq> CHR ''{'') raw))) \<noteq> []"
    by (auto simp: search_braces_def Let_def split: if_splits)
  let ?t = "dropWhile (\<lambda>c. c \<noteq> CHR ''{'') raw"
  have tn: "?t \<noteq> []"
  proof
    assume e: "?t = []"
    show False using u unfolding e by simp
  qed
  then obtain x rest where xr: "?t = x # rest" by (cases ?t) auto
  have "\<not> (hd ?t \<noteq> CHR ''{'')" using tn by (rule hd_dropWhile)
  then have t: "?t = CHR ''{'' # rest" using xr by simp
  have "raw = takeWhile (\<lambda>c. c \<noteq> CHR ''{'') raw @ ?t" by simp
  then have raw: "raw = takeWhile (\<lambda>c. c \<noteq> CHR ''{'') raw @ CHR ''{'' # rest"
    unfolding t .
  have "CHR ''}'' \<in> set (rev ?t)" using u by (auto simp: dropWhile_eq_Nil_conv)
  then have "CHR ''}'' \<in> set rest" unfolding t by simp
  then obtain a b where "rest = a @ CHR ''}'' # b" by (meson split_list)
  then have "raw = takeWhile (\<lambda>c. c \<noteq> CHR ''{'') raw @ CHR ''{'' # a @ CHR ''}'' # b"
    using raw by simp
  then show False using assms by blast
qed

subsection \<open>The scoring loop\<close>

text \<open>The loop returns the first column of the greatest score, and the matcher always answers.\<close>

lemma cols_to_score_eq: "cols_to_score = [''AETERM'', ''AESOC'', ''AESEV'', ''AEDECOD'']"
  by (simp add: cols_to_score_def MAPPABLE_COLS_def SCHEMA_def)

lemma score_total:
  "col \<in> set cols_to_score \<Longrightarrow> \<exists>s. score q col = Inr s \<and> 0 \<le> s"
  by (auto simp: cols_to_score_eq score_def SCHEMA_def Let_def)

lemma score_formula:
  assumes "(col, desc) \<in> set SCHEMA"
  shows "score q col =
     Inr (int (card (set (findall_lower_alnum q) \<inter>
                     set (findall_lower_alnum (lower (col @ '' '' @ desc)))))
          + (if sublist (lower col) q then 2 else 0))"
proof -
  have "distinct (map fst SCHEMA)" by (simp add: SCHEMA_def)
  then have "map_of SCHEMA col = Some desc" using assms by simp
  then show ?thesis by (simp add: score_def Let_def str_in_sublist)
qed

lemma best_loop_first_max:
  assumes "\<forall>c \<in> set cols. \<exists>s. score q c = Inr s"
  shows "\<exists>b bs. best_loop q cols (b0, s0) = Inr (b, bs) \<and>
     ((b = b0 \<and> bs = s0 \<and> (\<forall>c \<in> set cols. \<exists>s. score q c = Inr s \<and> s \<le> s0)) \<or>
      (\<exists>pre post. cols = pre @ b # post \<and> score q b = Inr bs \<and> s0 < bs \<and>
         (\<forall>c \<in> set pre. \<exists>s. score q c = Inr s \<and> s < bs) \<and>
         (\<forall>c \<in> set post. \<exists>s. score q c = Inr s \<and> s \<le> bs)))"
  using assms
proof (induction cols arbitrary: b0 s0)
  case Nil
  then show ?case by simp
next
  case (Cons col cols)
  then obtain sc where sc: "score q col = Inr sc" by auto
  have rest: "\<forall>c \<in> set cols. \<exists>s. score q c = Inr s" using Cons.prems by simp
  show ?case
  proof (cases "sc > s0")
    case True
    from Cons.IH[OF rest, of col sc] obtain b bs where
      r: "best_loop q cols (col, sc) = Inr (b, bs)" and
      d: "(b = col \<and> bs = sc \<and> (\<forall>c \<in> set cols. \<exists>s. score q c = Inr s \<and> s \<le> sc)) \<or>
      (\<exists>pre post. cols = pre @ b # post \<and> score q b = Inr bs \<and> sc < bs \<and>
         (\<forall>c \<in> set pre. \<exists>s. score q c = Inr s \<and> s < bs) \<and>
         (\<forall>c \<in> set post. \<exists>s. score q c = Inr s \<and> s \<le> bs))" by blast
    have res: "best_loop q (col # cols) (b0, s0) = Inr (b, bs)"
      using sc True r by simp
    from d show ?thesis
    proof
      assume a: "b = col \<and> bs = sc \<and> (\<forall>c \<in> set cols. \<exists>s. score q c = Inr s \<and> s \<le> sc)"
      then have "col # cols = [] @ b # cols \<and> score q b = Inr bs \<and> s0 < bs \<and>
         (\<forall>c \<in> set []. \<exists>s. score q c = Inr s \<and> s < bs) \<and>
         (\<forall>c \<in> set cols. \<exists>s. score q c = Inr s \<and> s \<le> bs)"
        using sc True by simp
      then show ?thesis using res by blast
    next
      assume "\<exists>pre post. cols = pre @ b # post \<and> score q b = Inr bs \<and> sc < bs \<and>
         (\<forall>c \<in> set pre. \<exists>s. score q c = Inr s \<and> s < bs) \<and>
         (\<forall>c \<in> set post. \<exists>s. score q c = Inr s \<and> s \<le> bs)"
      then obtain pre post where p: "cols = pre @ b # post" "score q b = Inr bs" "sc < bs"
         "\<forall>c \<in> set pre. \<exists>s. score q c = Inr s \<and> s < bs"
         "\<forall>c \<in> set post. \<exists>s. score q c = Inr s \<and> s \<le> bs" by blast
      have "col # cols = (col # pre) @ b # post \<and> score q b = Inr bs \<and> s0 < bs \<and>
         (\<forall>c \<in> set (col # pre). \<exists>s. score q c = Inr s \<and> s < bs) \<and>
         (\<forall>c \<in> set post. \<exists>s. score q c = Inr s \<and> s \<le> bs)"
        using p sc True by auto
      then show ?thesis using res by blast
    qed
  next
    case False
    from Cons.IH[OF rest, of b0 s0] obtain b bs where
      r: "best_loop q cols (b0, s0) = Inr (b, bs)" and
      d: "(b = b0 \<and> bs = s0 \<and> (\<forall>c \<in> set cols. \<exists>s. score q c = Inr s \<and> s \<le> s0)) \<or>
      (\<exists>pre post. cols = pre @ b # post \<and> score q b = Inr bs \<and> s0 < bs \<and>
         (\<forall>c \<in> set pre. \<exists>s. score q c = Inr s \<and> s < bs) \<and>
         (\<forall>c \<in> set post. \<exists>s. score q c = Inr s \<and> s \<le> bs))" by blast
    have res: "best_loop q (col # cols) (b0, s0) = Inr (b, bs)"
      using sc False r by simp
    from d show ?thesis
    proof
      assume "b = b0 \<and> bs = s0 \<and> (\<forall>c \<in> set cols. \<exists>s. score q c = Inr s \<and> s \<le> s0)"
      then have "b = b0 \<and> bs = s0 \<and> (\<forall>c \<in> set (col # cols). \<exists>s. score q c = Inr s \<and> s \<le> s0)"
        using sc False by auto
      then show ?thesis using res by blast
    next
      assume "\<exists>pre post. cols = pre @ b # post \<and> score q b = Inr bs \<and> s0 < bs \<and>
         (\<forall>c \<in> set pre. \<exists>s. score q c = Inr s \<and> s < bs) \<and>
         (\<forall>c \<in> set post. \<exists>s. score q c = Inr s \<and> s \<le> bs)"
      then obtain pre post where p: "cols = pre @ b # post" "score q b = Inr bs" "s0 < bs"
         "\<forall>c \<in> set pre. \<exists>s. score q c = Inr s \<and> s < bs"
         "\<forall>c \<in> set post. \<exists>s. score q c = Inr s \<and> s \<le> bs" by blast
      have "col # cols = (col # pre) @ b # post \<and> score q b = Inr bs \<and> s0 < bs \<and>
         (\<forall>c \<in> set (col # pre). \<exists>s. score q c = Inr s \<and> s < bs) \<and>
         (\<forall>c \<in> set post. \<exists>s. score q c = Inr s \<and> s \<le> bs)"
        using p sc False by auto
      then show ?thesis using res by blast
    qed
  qed
qed

lemma best_loop_cols:
  "\<exists>b bs pre post. best_loop q cols_to_score (''AETERM'', - 1) = Inr (b, bs) \<and>
     cols_to_score = pre @ b # post \<and> score q b = Inr bs \<and>
     (\<forall>c \<in> set pre. \<exists>s. score q c = Inr s \<and> s < bs) \<and>
     (\<forall>c \<in> set post. \<exists>s. score q c = Inr s \<and> s \<le> bs)"
proof -
  have all: "\<forall>c \<in> set cols_to_score. \<exists>s. score q c = Inr s"
    using score_total by blast
  from best_loop_first_max[OF all, of "''AETERM''" "- 1"] obtain b bs where
    r: "best_loop q cols_to_score (''AETERM'', - 1) = Inr (b, bs)" and
    d: "(b = ''AETERM'' \<and> bs = - 1 \<and> (\<forall>c \<in> set cols_to_score. \<exists>s. score q c = Inr s \<and> s \<le> - 1)) \<or>
      (\<exists>pre post. cols_to_score = pre @ b # post \<and> score q b = Inr bs \<and> - 1 < bs \<and>
         (\<forall>c \<in> set pre. \<exists>s. score q c = Inr s \<and> s < bs) \<and>
         (\<forall>c \<in> set post. \<exists>s. score q c = Inr s \<and> s \<le> bs))" by blast
  have "\<not> (\<forall>c \<in> set cols_to_score. \<exists>s. score q c = Inr s \<and> s \<le> - 1)"
  proof
    assume "\<forall>c \<in> set cols_to_score. \<exists>s. score q c = Inr s \<and> s \<le> - 1"
    moreover have "''AETERM'' \<in> set cols_to_score" by (simp add: cols_to_score_eq)
    ultimately obtain s where "score q ''AETERM'' = Inr s" "s \<le> - 1" by blast
    moreover obtain s' where "score q ''AETERM'' = Inr s'" "0 \<le> s'"
      using score_total[of "''AETERM''" q] by (auto simp: cols_to_score_eq)
    ultimately show False by simp
  qed
  with d r show ?thesis by blast
qed

lemma column_cols_to_score: "c \<in> set cols_to_score \<Longrightarrow> \<exists>col. column c = Some col"
  by (auto simp: cols_to_score_eq column_def)

lemma mock_query_total:
  "\<exists>b v. mock_query self question = Inr (b, v) \<and> b \<in> set cols_to_score"
proof -
  obtain b bs pre post where
    r: "best_loop (lower question) cols_to_score (''AETERM'', - 1) = Inr (b, bs)" and
    c: "cols_to_score = pre @ b # post"
    using best_loop_cols[of "lower question"] by blast
  have m: "b \<in> set cols_to_score" unfolding c by simp
  then obtain col where "column b = Some col" using column_cols_to_score by blast
  then show ?thesis using r m by (simp add: mock_query_def)
qed

lemma parse_question_mock:
  assumes "\<not> use_llm self" and "mock_query self question = Inr (b, v)"
  shows "parse_question repr self question =
    validate repr question (JObj [(ustr ''target_column'', JStr (ustr b)), (ustr ''filter_value'', JStr (ustr v))])"
  using assms
  by (simp add: parse_question_def mock_llm_def search_braces_dumps_query json_loads_dumps_query)

subsection \<open>The repair of the column\<close>

lemma search_subject_from_sublist:
  "search_subject_from b t \<Longrightarrow> sublist ''usubjid'' (lower t) \<or> sublist ''subject id'' (lower t)"
proof (induction t arbitrary: b)
  case Nil
  then show ?case by simp
next
  case (Cons c cs)
  have l1: "lower ''usubjid'' = ''usubjid''" by code_simp
  have l2: "lower ''subject id'' = ''subject id''" by code_simp
  from Cons.prems have "word_here ''usubjid'' (c # cs) \<or> word_here ''subject id'' (c # cs)
      \<or> search_subject_from (\<not> is_word c) cs" by auto
  then show ?case
  proof (elim disjE)
    assume "word_here ''usubjid'' (c # cs)"
    then have "prefix ''usubjid'' (lower (c # cs))"
      using l1 by (simp add: word_here_def match_here_ci_prefix del: match_here_ci.simps)
    then show ?thesis by (meson prefix_imp_sublist)
  next
    assume "word_here ''subject id'' (c # cs)"
    then have "prefix ''subject id'' (lower (c # cs))"
      using l2 by (simp add: word_here_def match_here_ci_prefix del: match_here_ci.simps)
    then show ?thesis by (meson prefix_imp_sublist)
  next
    assume "search_subject_from (\<not> is_word c) cs"
    then have "sublist ''usubjid'' (lower cs) \<or> sublist ''subject id'' (lower cs)"
      using Cons.IH by blast
    then show ?thesis by (auto simp: lower_def sublist_Cons_right)
  qed
qed

lemma mappable_cols: "set MAPPABLE_COLS = {''USUBJID'', ''AETERM'', ''AESOC'', ''AESEV'', ''AEDECOD''}"
  by (auto simp: MAPPABLE_COLS_def SCHEMA_def)

lemma ustr_inject: "(ustr a = ustr b) = (a = b)"
proof -
  have "inj (of_char :: char \<Rightarrow> int)" by (rule injI) simp
  then show ?thesis unfolding ustr_def by (simp add: inj_map_eq_map)
qed

lemma ustr_mappable_cols:
  "set (map ustr MAPPABLE_COLS) =
     {ustr ''USUBJID'', ustr ''AETERM'', ustr ''AESOC'', ustr ''AESEV'', ustr ''AEDECOD''}"
  by (simp add: MAPPABLE_COLS_def SCHEMA_def)

lemma ustr_names_distinct:
  "ustr ''USUBJID'' \<noteq> ustr ''AETERM''" "ustr ''USUBJID'' \<noteq> ustr ''AESOC''"
  "ustr ''USUBJID'' \<noteq> ustr ''AESEV''" "ustr ''USUBJID'' \<noteq> ustr ''AEDECOD''"
  by (simp_all add: ustr_inject)

lemma validate_result:
  assumes "validate repr question obj = Inr r"
  shows "\<exists>kvs. obj = JObj kvs \<and>
     target_column r =
       (let c = ustrip (py_str repr (dict_get kvs (ustr ''target_column'') (JStr [])))
        in if c \<in> {ustr ''AETERM'', ustr ''AESOC'', ustr ''AESEV'', ustr ''AEDECOD''} then c
           else if c = ustr ''USUBJID'' \<and> search_subject question then ustr ''USUBJID''
           else ustr ''AETERM'') \<and>
     filter_value r = ustrip (py_str repr (dict_get kvs (ustr ''filter_value'') (JStr [])))"
proof -
  obtain kvs where o: "obj = JObj kvs" using assms by (cases obj) (auto simp: validate_def)
  define c where "c = ustrip (py_str repr (dict_get kvs (ustr ''target_column'') (JStr [])))"
  define col1 where "col1 = (if c \<notin> set (map ustr MAPPABLE_COLS) then ustr ''AETERM'' else c)"
  have t: "target_column r =
      (if col1 = ustr ''USUBJID'' \<and> \<not> search_subject question then ustr ''AETERM'' else col1)"
    and f: "filter_value r = ustrip (py_str repr (dict_get kvs (ustr ''filter_value'') (JStr [])))"
    using assms unfolding o validate_def c_def col1_def by (auto simp: Let_def)
  have "target_column r =
       (if c \<in> {ustr ''AETERM'', ustr ''AESOC'', ustr ''AESEV'', ustr ''AEDECOD''} then c
        else if c = ustr ''USUBJID'' \<and> search_subject question then ustr ''USUBJID''
        else ustr ''AETERM'')"
    unfolding t col1_def ustr_mappable_cols using ustr_names_distinct by auto
  then show ?thesis using o f unfolding c_def Let_def by blast
qed

lemma validate_column:
  assumes "validate repr question obj = Inr r"
  shows "target_column r \<in> {ustr ''AETERM'', ustr ''AESOC'', ustr ''AESEV'', ustr ''AEDECOD''} \<or>
         (target_column r = ustr ''USUBJID'' \<and> search_subject question)"
proof -
  obtain kvs where
    "target_column r =
       (let c = ustrip (py_str repr (dict_get kvs (ustr ''target_column'') (JStr [])))
        in if c \<in> {ustr ''AETERM'', ustr ''AESOC'', ustr ''AESEV'', ustr ''AEDECOD''} then c
           else if c = ustr ''USUBJID'' \<and> search_subject question then ustr ''USUBJID''
           else ustr ''AETERM'')"
    using validate_result[OF assms] by blast
  then show ?thesis by (auto simp: Let_def split: if_splits)
qed

lemma call_llm_raises:
  "llm self = Some invoke \<Longrightarrow> invoke (prompt self question) = Inl e \<Longrightarrow>
   call_llm self question = Inl e"
  by (simp add: call_llm_def)

lemma parse_question_llm_raises:
  "use_llm self \<Longrightarrow> call_llm self question = Inl e \<Longrightarrow> parse_question repr self question = Inl e"
  by (simp add: parse_question_def)

lemma parse_question_errors:
  assumes "parse_question repr self question = Inl e"
  shows "(use_llm self \<and> call_llm self question = Inl e) \<or> e = JSONDecodeError \<or> e = AttributeError"
proof (cases "use_llm self")
  case True
  show ?thesis
  proof (cases "call_llm self question")
    case (Inl e')
    then show ?thesis using assms True by (simp add: parse_question_def)
  next
    case (Inr raw)
    let ?p = "case search_braces raw of Some g \<Rightarrow> g | None \<Rightarrow> raw"
    show ?thesis
    proof (cases "json_loads ?p")
      case (Inl e')
      then have "e = e'" using assms True Inr by (simp add: parse_question_def)
      moreover have "e' = JSONDecodeError" using Inl by (rule json_loads_error)
      ultimately show ?thesis by blast
    next
      case (Inr obj)
      then have "validate repr question obj = Inl e"
        using assms True \<open>call_llm self question = Inr raw\<close> by (simp add: parse_question_def)
      then have "e = AttributeError" by (auto simp: validate_def Let_def split: json.splits)
      then show ?thesis by blast
    qed
  qed
next
  case False
  obtain b v where m: "mock_query self question = Inr (b, v)" using mock_query_total by blast
  have "parse_question repr self question =
    validate repr question (JObj [(ustr ''target_column'', JStr (ustr b)), (ustr ''filter_value'', JStr (ustr v))])"
    using False m by (rule parse_question_mock)
  then have False using assms by (simp add: validate_def Let_def)
  then show ?thesis ..
qed

subsection \<open>Questions of white space\<close>

lemma runs_none: "\<forall>c \<in> set s. \<not> p c \<Longrightarrow> runs p [] s = []"
  by (induction s) auto

lemma space_not_alnum: "is_space c \<Longrightarrow> \<not> is_alnum c \<and> \<not> is_lower_alnum c \<and> c \<noteq> dquote"
  by (auto simp: is_space_def is_alnum_def is_lower_alnum_def dquote_def Let_def)

lemma lower_char_space: "is_space c \<Longrightarrow> lower_char c = c"
  by (auto simp: is_space_def lower_char_def Let_def)

lemma lower_spaces: "\<forall>c \<in> set s. is_space c \<Longrightarrow> lower s = s"
  by (induction s) (auto simp: lower_def lower_char_space)

lemma is_space_lower_char: "is_space (lower_char c) \<Longrightarrow> is_space c"
proof -
  assume a: "is_space (lower_char c)"
  let ?n = "of_char c :: nat"
  show ?thesis
  proof (cases "(65 \<le> ?n \<and> ?n \<le> 90) \<or> (192 \<le> ?n \<and> ?n \<le> 222 \<and> ?n \<noteq> 215)")
    case True
    then have l: "lower_char c = char_of (?n + 32)" by (simp add: lower_char_def Let_def)
    have "?n + 32 < 256" using True by auto
    then have "(of_char (char_of (?n + 32)) :: nat) = ?n + 32" by simp
    then have "\<not> is_space (char_of (?n + 32))" using True
      by (auto simp: is_space_def Let_def)
    then show ?thesis using a l by simp
  next
    case False
    then have "lower_char c = c" by (auto simp: lower_char_def Let_def)
    then show ?thesis using a by simp
  qed
qed

lemma strip_spaces: "\<forall>c \<in> set s. is_space c \<Longrightarrow> strip s = []"
proof -
  assume "\<forall>c \<in> set s. is_space c"
  then have d: "dropWhile is_space s = []" by simp
  show ?thesis unfolding strip_def d by simp
qed

lemma quoted_none: "dquote \<notin> set s \<Longrightarrow> quoted s = None"
  by (induction s) auto

lemma pick_value_spaces:
  assumes "\<forall>c \<in> set question. is_space c"
  shows "\<forall>c \<in> set (pick_value vals question). is_space c"
proof -
  have lq: "lower question = question" using assms by (rule lower_spaces)
  have q: "quoted question = None"
    using assms space_not_alnum by (intro quoted_none) blast
  have t: "findall_alnum question = []"
    unfolding findall_alnum_def using assms space_not_alnum by (intro runs_none) blast
  show ?thesis
  proof (cases "find (\<lambda>v. str_in (lower v) question) vals")
    case None
    then show ?thesis by (simp add: pick_value_def lq q t last3_def)
  next
    case (Some v)
    then have "sublist (lower v) question" using find_mem[OF Some] by (simp add: str_in_sublist)
    then have "set (lower v) \<subseteq> set question" by (rule sublist_set)
    then have "\<forall>c \<in> set v. is_space (lower_char c)" using assms by (auto simp: lower_def)
    then have sp: "\<forall>c \<in> set v. is_space c" using is_space_lower_char by blast
    show ?thesis
      using Some sp by (simp add: pick_value_def lq q t last3_def)
  qed
qed

lemma score_spaces:
  assumes "\<forall>c \<in> set q. is_space c" and "col \<in> set cols_to_score"
  shows "score q col = Inr 0"
proof -
  have t: "findall_lower_alnum q = []"
    unfolding findall_lower_alnum_def using assms(1) space_not_alnum by (intro runs_none) blast
  have l: "lower ''AETERM'' = ''aeterm''" "lower ''AESOC'' = ''aesoc''"
     "lower ''AESEV'' = ''aesev''" "lower ''AEDECOD'' = ''aedecod''" by code_simp+
  have a: "\<not> is_space (CHR ''a'')" by (simp add: is_space_def)
  have "\<not> sublist (lower col) q"
  proof
    assume "sublist (lower col) q"
    then have "set (lower col) \<subseteq> set q" by (rule sublist_set)
    moreover have "CHR ''a'' \<in> set (lower col)"
      using assms(2) l by (auto simp: cols_to_score_eq)
    ultimately show False using assms(1) a by blast
  qed
  moreover obtain desc where "map_of SCHEMA col = Some desc"
    using assms(2) by (auto simp: cols_to_score_eq SCHEMA_def)
  ultimately show ?thesis by (simp add: score_def t str_in_sublist)
qed

lemma mock_query_spaces:
  assumes "\<forall>c \<in> set question. is_space c"
  shows "\<exists>v. mock_query self question = Inr (''AETERM'', v) \<and> (\<forall>c \<in> set v. is_space c)"
proof -
  have lq: "lower question = question" using assms by (rule lower_spaces)
  have s: "\<And>col. col \<in> set cols_to_score \<Longrightarrow> score question col = Inr 0"
    using assms score_spaces by blast
  have b: "best_loop question cols_to_score (''AETERM'', - 1) = Inr (''AETERM'', 0)"
    by (simp add: cols_to_score_eq s)
  show ?thesis
    using pick_value_spaces[OF assms] by (simp add: mock_query_def lq b column_def)
qed

lemma strip_AETERM: "strip ''AETERM'' = ''AETERM''"
  by code_simp

lemma is_uspace_of_char: "is_uspace (of_char c) = is_space c"
proof -
  define n where "n = (of_char c :: nat)"
  have i: "(of_char c :: int) = int n" unfolding n_def by (rule of_nat_of_char[symmetric])
  have "n < 256" unfolding n_def by simp
  then have "is_uspace (int n) = ((9 \<le> n \<and> n \<le> 13) \<or> (28 \<le> n \<and> n \<le> 32) \<or> n = 133 \<or> n = 160)"
    unfolding is_uspace_def by linarith
  then show ?thesis unfolding i unfolding n_def by (simp add: is_space_def Let_def)
qed

lemma ustrip_ustr: "ustrip (ustr s) = ustr (strip s)"
proof -
  have c: "is_uspace \<circ> of_char = is_space" by (rule ext) (simp add: is_uspace_of_char)
  have d: "\<And>xs. dropWhile is_uspace (map of_char xs) = map of_char (dropWhile is_space xs)"
    by (simp add: dropWhile_map c)
  have "ustrip (map of_char s) =
      rev (dropWhile is_uspace (rev (map of_char (dropWhile is_space s))))"
    unfolding ustrip_def d ..
  also have "\<dots> = rev (dropWhile is_uspace (map of_char (rev (dropWhile is_space s))))"
    by (simp only: rev_map)
  also have "\<dots> = rev (map of_char (dropWhile is_space (rev (dropWhile is_space s))))"
    unfolding d ..
  also have "\<dots> = map of_char (strip s)"
    unfolding strip_def by (simp only: rev_map)
  finally show ?thesis unfolding ustr_def .
qed

subsection \<open>The candidates and the chosen value\<close>

lemma candidates_distinct: "distinct (candidates cells)"
  by (simp add: candidates_def sorted_by_len_desc_def distinct_unique)

lemma candidates_length: "length (candidates cells) \<le> 5000"
  by (simp add: candidates_def)

lemma candidates_subset: "set (candidates cells) \<subseteq> {s. Some s \<in> set cells}"
proof -
  have "set (candidates cells) \<subseteq> set (sorted_by_len_desc (unique (dropna_str cells)))"
    unfolding candidates_def by (rule set_take_subset)
  then show ?thesis by (simp add: sorted_by_len_desc_def set_unique set_dropna_str)
qed

lemma candidates_all:
  assumes "length (unique (dropna_str cells)) \<le> 5000"
  shows "set (candidates cells) = {s. Some s \<in> set cells}"
  using assms by (simp add: candidates_def sorted_by_len_desc_def set_unique set_dropna_str)

lemma sorted_by_len_desc_sorted:
  "sorted_wrt (\<lambda>a b. length b \<le> length a) (sorted_by_len_desc vals)"
proof -
  have "sorted (map (\<lambda>v. - int (length v)) (sorted_by_len_desc vals))"
    unfolding sorted_by_len_desc_def by (rule sorted_sort_key)
  then show ?thesis by (simp add: sorted_map)
qed

lemma candidates_sorted: "sorted_wrt (\<lambda>a b. length b \<le> length a) (candidates cells)"
  unfolding candidates_def by (intro sorted_wrt_take sorted_by_len_desc_sorted)

lemma sorted_desc_dropped:
  assumes "sorted_wrt (\<lambda>a b. length b \<le> length a) xs" and "u \<in> set xs" and "u \<notin> set (take n xs)"
  shows "\<forall>v \<in> set (take n xs). length u \<le> length v"
proof -
  have "xs = take n xs @ drop n xs" by simp
  then have s: "sorted_wrt (\<lambda>a b. length b \<le> length a) (take n xs @ drop n xs)"
    using assms(1) by simp
  have "u \<in> set (take n xs) \<union> set (drop n xs)"
    using assms(2) by (metis append_take_drop_id set_append)
  then have "u \<in> set (drop n xs)" using assms(3) by blast
  then show ?thesis using s unfolding sorted_wrt_append by blast
qed

lemma candidates_dropped:
  assumes "Some u \<in> set cells" and "u \<notin> set (candidates cells)"
  shows "\<forall>v \<in> set (candidates cells). length u \<le> length v"
proof -
  have "u \<in> set (sorted_by_len_desc (unique (dropna_str cells)))"
    using assms(1) by (simp add: sorted_by_len_desc_def set_unique set_dropna_str)
  then show ?thesis
    using assms(2) sorted_by_len_desc_sorted unfolding candidates_def
    by (intro sorted_desc_dropped)
qed

lemma candidates_eq:
  "candidates cells =
     take 5000 (sort_key (\<lambda>v. - int (length v))
       (rev (remdups (rev (map the (filter (\<lambda>c. c \<noteq> None) cells))))))"
  by (simp only: candidates_def sorted_by_len_desc_def unique_remdups dropna_str_def)

lemma candidates_card: "length (candidates cells) = min 5000 (card {s. Some s \<in> set cells})"
proof -
  have "length (unique (dropna_str cells)) = card (set (unique (dropna_str cells)))"
    using distinct_unique[of "dropna_str cells"] by (simp add: distinct_card)
  also have "\<dots> = card {s. Some s \<in> set cells}"
    by (simp only: set_unique set_dropna_str)
  finally show ?thesis
    by (simp add: candidates_def sorted_by_len_desc_def min.commute)
qed

lemma find_nonempty_first:
  assumes "sorted_wrt (\<lambda>a b. length b \<le> length a) vals" and "P []"
  shows "(case find P vals of Some v \<Rightarrow> v | None \<Rightarrow> []) =
         (case find (\<lambda>v. v \<noteq> [] \<and> P v) vals of Some v \<Rightarrow> v | None \<Rightarrow> [])"
  using assms(1)
proof (induction vals)
  case Nil
  then show ?case by simp
next
  case (Cons x xs)
  show ?case
  proof (cases "x = []")
    case True
    then have "\<forall>y \<in> set xs. y = []" using Cons.prems by auto
    then have "find (\<lambda>v. v \<noteq> [] \<and> P v) xs = None" by (simp add: find_None_iff)
    then show ?thesis using True assms(2) by simp
  next
    case False
    then show ?thesis using Cons by auto
  qed
qed

lemma pick_value_sorted:
  assumes "sorted_wrt (\<lambda>a b. length b \<le> length a) vals"
  shows "pick_value vals question =
    (case find (\<lambda>v. v \<noteq> [] \<and> sublist (lower v) (lower question)) vals of
       Some v \<Rightarrow> v
     | None \<Rightarrow> (case quoted question of
                  Some g \<Rightarrow> g
                | None \<Rightarrow> join_sp (last3 (findall_alnum question))))"
proof -
  let ?P = "\<lambda>v. sublist (lower v) (lower question)"
  have e: "?P []" by (simp add: lower_def)
  have f: "(case find ?P vals of Some v \<Rightarrow> v | None \<Rightarrow> []) =
         (case find (\<lambda>v. v \<noteq> [] \<and> ?P v) vals of Some v \<Rightarrow> v | None \<Rightarrow> [])"
    using assms e by (rule find_nonempty_first)
  have ne: "\<And>v. find (\<lambda>v. v \<noteq> [] \<and> ?P v) vals = Some v \<Longrightarrow> v \<noteq> []"
    using find_mem by fastforce
  show ?thesis
    unfolding pick_value_def Let_def str_in_sublist f
    using ne by (auto split: option.splits)
qed

lemma quoted_Some:
  "quoted q = Some g \<Longrightarrow>
   \<exists>pre post. q = pre @ dquote # g @ dquote # post \<and> g \<noteq> [] \<and> dquote \<notin> set g"
proof (induction q)
  case Nil
  then show ?case by simp
next
  case (Cons c cs)
  let ?run = "takeWhile (\<lambda>x. x \<noteq> dquote) cs"
  let ?rest = "dropWhile (\<lambda>x. x \<noteq> dquote) cs"
  show ?case
  proof (cases "c = dquote \<and> ?run \<noteq> [] \<and> ?rest \<noteq> []")
    case True
    then have g: "g = ?run" using Cons.prems by simp
    obtain x post where r: "?rest = x # post" using True by (cases ?rest) auto
    have rn: "?rest \<noteq> []" using True by (rule conjunct2[THEN conjunct2])
    have "\<not> (hd ?rest \<noteq> dquote)" using rn by (rule hd_dropWhile)
    then have x: "x = dquote" using r by simp
    have "cs = ?run @ ?rest" by simp
    then have "c # cs = [] @ dquote # g @ dquote # post" using True g r x by simp
    moreover have "dquote \<notin> set g" unfolding g by (auto dest: set_takeWhileD)
    ultimately show ?thesis using True g by blast
  next
    case False
    then have "quoted cs = Some g" using Cons.prems by auto
    then obtain pre post where "cs = pre @ dquote # g @ dquote # post" "g \<noteq> []" "dquote \<notin> set g"
      using Cons.IH by blast
    then have "c # cs = (c # pre) @ dquote # g @ dquote # post \<and> g \<noteq> [] \<and> dquote \<notin> set g"
      by simp
    then show ?thesis by blast
  qed
qed

lemma quoted_head:
  assumes "cs = g @ dquote # post" and "g \<noteq> []" and "dquote \<notin> set g"
  shows "quoted (dquote # cs) = Some g"
proof -
  have a: "\<forall>x \<in> set g. x \<noteq> dquote" using assms(3) by blast
  have t: "takeWhile (\<lambda>x. x \<noteq> dquote) cs = g"
    unfolding assms(1) using a by (simp add: takeWhile_append2)
  have d: "dropWhile (\<lambda>x. x \<noteq> dquote) cs = dquote # post"
    unfolding assms(1) using a by (simp add: dropWhile_append2)
  show ?thesis using assms(2) by (simp add: t d)
qed

lemma quoted_no_head:
  assumes "quoted (c # cs) \<noteq> Some (takeWhile (\<lambda>x. x \<noteq> dquote) cs) \<or> c \<noteq> dquote
           \<or> takeWhile (\<lambda>x. x \<noteq> dquote) cs = [] \<or> dropWhile (\<lambda>x. x \<noteq> dquote) cs = []"
    and "c # cs = pre @ dquote # g @ dquote # post" and "g \<noteq> []" and "dquote \<notin> set g"
  shows "\<exists>p. pre = c # p \<and> cs = p @ dquote # g @ dquote # post"
proof (cases pre)
  case Nil
  then have c: "c = dquote" and cs: "cs = g @ dquote # post" using assms(2) by simp_all
  have a: "\<forall>x \<in> set g. x \<noteq> dquote" using assms(4) by blast
  have t: "takeWhile (\<lambda>x. x \<noteq> dquote) cs = g"
    unfolding cs using a by (simp add: takeWhile_append2)
  have d: "dropWhile (\<lambda>x. x \<noteq> dquote) cs = dquote # post"
    unfolding cs using a by (simp add: dropWhile_append2)
  have "quoted (c # cs) = Some g" unfolding c using cs assms(3,4) by (rule quoted_head)
  then have False using assms(1) c t d assms(3) by simp
  then show ?thesis ..
next
  case (Cons x p)
  then show ?thesis using assms(2) by simp
qed

lemma quoted_leftmost:
  "quoted q = Some g \<Longrightarrow>
   \<exists>pre post. q = pre @ dquote # g @ dquote # post \<and> g \<noteq> [] \<and> dquote \<notin> set g \<and>
     (\<forall>pre' g' post'. q = pre' @ dquote # g' @ dquote # post' \<and> g' \<noteq> [] \<and> dquote \<notin> set g'
        \<longrightarrow> length pre \<le> length pre')"
proof (induction q)
  case Nil
  then show ?case by simp
next
  case (Cons c cs)
  let ?run = "takeWhile (\<lambda>x. x \<noteq> dquote) cs"
  let ?rest = "dropWhile (\<lambda>x. x \<noteq> dquote) cs"
  show ?case
  proof (cases "c = dquote \<and> ?run \<noteq> [] \<and> ?rest \<noteq> []")
    case True
    obtain pre post where "c # cs = pre @ dquote # g @ dquote # post" "g \<noteq> []" "dquote \<notin> set g"
      using quoted_Some[OF Cons.prems] by blast
    have g: "g = ?run" using True Cons.prems by simp
    obtain x post where r: "?rest = x # post" using True by (cases ?rest) auto
    have rn: "?rest \<noteq> []" using True by (rule conjunct2[THEN conjunct2])
    have "\<not> (hd ?rest \<noteq> dquote)" using rn by (rule hd_dropWhile)
    then have x: "x = dquote" using r by simp
    have "cs = ?run @ ?rest" by simp
    then have "c # cs = [] @ dquote # g @ dquote # post" using True g r x by simp
    moreover have "dquote \<notin> set g" unfolding g by (auto dest: set_takeWhileD)
    moreover have "g \<noteq> []" using True g by simp
    moreover have "\<forall>pre' g' post'. c # cs = pre' @ dquote # g' @ dquote # post' \<and> g' \<noteq> [] \<and>
        dquote \<notin> set g' \<longrightarrow> length ([] :: string) \<le> length pre'" by simp
    ultimately show ?thesis by blast
  next
    case False
    then have q: "quoted cs = Some g" using Cons.prems by auto
    then obtain pre post where d: "cs = pre @ dquote # g @ dquote # post" "g \<noteq> []" "dquote \<notin> set g"
      and m: "\<forall>pre' g' post'. cs = pre' @ dquote # g' @ dquote # post' \<and> g' \<noteq> [] \<and>
          dquote \<notin> set g' \<longrightarrow> length pre \<le> length pre'"
      using Cons.IH by blast
    have nh: "quoted (c # cs) \<noteq> Some ?run \<or> c \<noteq> dquote \<or> ?run = [] \<or> ?rest = []"
      using False by blast
    have "\<forall>pre' g' post'. c # cs = pre' @ dquote # g' @ dquote # post' \<and> g' \<noteq> [] \<and>
        dquote \<notin> set g' \<longrightarrow> length (c # pre) \<le> length pre'"
    proof (intro allI impI)
      fix pre' g' post'
      assume a: "c # cs = pre' @ dquote # g' @ dquote # post' \<and> g' \<noteq> [] \<and> dquote \<notin> set g'"
      then obtain p where p: "pre' = c # p" "cs = p @ dquote # g' @ dquote # post'"
        using quoted_no_head[OF nh, of pre' g' post'] by blast
      then have "length pre \<le> length p" using m a by blast
      then show "length (c # pre) \<le> length pre'" using p by simp
    qed
    moreover have "c # cs = (c # pre) @ dquote # g @ dquote # post" using d by simp
    ultimately show ?thesis using d by blast
  qed
qed

lemma quoted_None:
  "quoted q = None \<Longrightarrow>
   \<not> (\<exists>pre g post. q = pre @ dquote # g @ dquote # post \<and> g \<noteq> [] \<and> dquote \<notin> set g)"
proof (induction q)
  case Nil
  then show ?case by simp
next
  case (Cons c cs)
  let ?run = "takeWhile (\<lambda>x. x \<noteq> dquote) cs"
  let ?rest = "dropWhile (\<lambda>x. x \<noteq> dquote) cs"
  have f: "\<not> (c = dquote \<and> ?run \<noteq> [] \<and> ?rest \<noteq> [])"
    using Cons.prems by (auto split: if_splits)
  then have q: "quoted cs = None" using Cons.prems by auto
  have nh: "quoted (c # cs) \<noteq> Some ?run \<or> c \<noteq> dquote \<or> ?run = [] \<or> ?rest = []"
    using f by blast
  show ?case
  proof
    assume "\<exists>pre g post. c # cs = pre @ dquote # g @ dquote # post \<and> g \<noteq> [] \<and> dquote \<notin> set g"
    then obtain pre g post where
      a: "c # cs = pre @ dquote # g @ dquote # post" "g \<noteq> []" "dquote \<notin> set g" by blast
    then obtain p where "cs = p @ dquote # g @ dquote # post"
      using quoted_no_head[OF nh, of pre g post] by blast
    then show False using Cons.IH[OF q] a by blast
  qed
qed

lemma quoted_spec:
  "(case quoted q of
      Some g \<Rightarrow>
        \<exists>pre post. q = pre @ dquote # g @ dquote # post \<and> g \<noteq> [] \<and> dquote \<notin> set g \<and>
          (\<forall>pre' g' post'. q = pre' @ dquote # g' @ dquote # post' \<and> g' \<noteq> [] \<and> dquote \<notin> set g'
             \<longrightarrow> length pre \<le> length pre')
    | None \<Rightarrow>
        \<not> (\<exists>pre g post. q = pre @ dquote # g @ dquote # post \<and> g \<noteq> [] \<and> dquote \<notin> set g))"
proof (cases "quoted q")
  case None
  then show ?thesis using quoted_None[of q] by simp
next
  case (Some g)
  then show ?thesis using quoted_leftmost[of q g] by simp
qed

lemma runs_acc:
  "runs p acc s =
     (if rev acc @ takeWhile p s = [] then [] else [rev acc @ takeWhile p s]) @
     runs p [] (dropWhile p s)"
proof (induction s arbitrary: acc)
  case Nil
  then show ?case by simp
next
  case (Cons c cs)
  show ?case
  proof (cases "p c")
    case True
    then show ?thesis using Cons[of "c # acc"] by simp
  next
    case False
    then show ?thesis by simp
  qed
qed

lemma runs_skip: "runs p [] s = runs p [] (dropWhile (\<lambda>c. \<not> p c) s)"
  by (induction s) simp_all

lemma runs_rec:
  "runs p [] t =
     (case dropWhile (\<lambda>c. \<not> p c) t of
        [] \<Rightarrow> []
      | c # cs \<Rightarrow> takeWhile p (c # cs) # runs p [] (dropWhile p (c # cs)))"
proof (cases "dropWhile (\<lambda>c. \<not> p c) t")
  case Nil
  have "runs p [] (dropWhile (\<lambda>c. \<not> p c) t) = []" unfolding Nil by simp
  then have "runs p [] t = []" using runs_skip[of p t] by (simp only:)
  then show ?thesis unfolding Nil by simp
next
  case (Cons c cs)
  have ne: "dropWhile (\<lambda>c. \<not> p c) t \<noteq> []" unfolding Cons by simp
  have "\<not> \<not> p (hd (dropWhile (\<lambda>c. \<not> p c) t))" using ne by (rule hd_dropWhile)
  then have pc: "p c" unfolding Cons by simp
  have "runs p [] t = runs p [] (c # cs)" using runs_skip[of p t] unfolding Cons .
  also have "\<dots> = [takeWhile p (c # cs)] @ runs p [] (dropWhile p (c # cs))"
    using runs_acc[of p "[]" "c # cs"] pc by simp
  finally show ?thesis unfolding Cons by simp
qed

lemma findall_alnum_rec:
  "findall_alnum t =
     (case dropWhile (\<lambda>c. \<not> is_alnum c) t of
        [] \<Rightarrow> []
      | c # cs \<Rightarrow> takeWhile is_alnum (c # cs) # findall_alnum (dropWhile is_alnum (c # cs)))"
  unfolding findall_alnum_def by (rule runs_rec)

lemma join_last3:
  "join_sp (last3 xs) =
     (case rev xs of
        [] \<Rightarrow> []
      | [a] \<Rightarrow> a
      | [b, a] \<Rightarrow> a @ '' '' @ b
      | c # b # a # earlier \<Rightarrow> a @ '' '' @ b @ '' '' @ c)"
proof -
  define ys where "ys = rev xs"
  have xs: "xs = rev ys" unfolding ys_def by simp
  have "last3 (rev ys) = rev (take 3 ys)"
    unfolding last3_def by (cases "3 \<le> length ys") (simp_all add: drop_rev)
  then have "join_sp (last3 xs) = join_sp (rev (take 3 ys))" unfolding xs by simp
  also have "\<dots> =
     (case ys of
        [] \<Rightarrow> []
      | [a] \<Rightarrow> a
      | [b, a] \<Rightarrow> a @ '' '' @ b
      | c # b # a # earlier \<Rightarrow> a @ '' '' @ b @ '' '' @ c)"
    by (simp split: list.splits)
  finally show ?thesis unfolding ys_def .
qed

subsection \<open>The layout of the sets\<close>

text \<open>The number of elements of an intersection does not depend on the layout, so a run of the matcher with a layout is the matcher.\<close>

lemma py_inter_length:
  assumes "\<And>xs. distinct (layout xs) \<and> set (layout xs) = set xs"
  shows "length (py_inter layout (layout xs) (layout ys)) = card (set xs \<inter> set ys)"
proof -
  define w where "w = (if length (layout xs) < length (layout ys)
            then filter (\<lambda>x. x \<in> set (layout ys)) (layout xs)
            else filter (\<lambda>x. x \<in> set (layout xs)) (layout ys))"
  have sx: "set (layout xs) = set xs" and sy: "set (layout ys) = set ys"
    using assms by simp_all
  have s: "set w = set xs \<inter> set ys" unfolding w_def using sx sy by auto
  have d: "distinct (layout w)" and e: "set (layout w) = set w" using assms by simp_all
  have "length (layout w) = card (set (layout w))" using d by (rule distinct_card[symmetric])
  also have "\<dots> = card (set xs \<inter> set ys)" unfolding e s ..
  finally show ?thesis unfolding py_inter_def w_def .
qed

lemma score_run_eq:
  assumes "\<And>xs. distinct (layout xs) \<and> set (layout xs) = set xs"
  shows "score_run layout q col = score q col"
  unfolding score_run_def score_def Let_def py_inter_length[of layout, OF assms] ..

lemma best_loop_run_eq:
  assumes "\<And>xs. distinct (layout xs) \<and> set (layout xs) = set xs"
  shows "best_loop_run layout q cols best = best_loop q cols best"
proof (induction cols arbitrary: best)
  case Nil
  then show ?case by simp
next
  case (Cons c cols)
  obtain bc bs where b: "best = (bc, bs)" by (cases best)
  show ?case
    unfolding b
    by (simp add: score_run_eq[of layout, OF assms] Cons split: sum.splits)
qed

lemma mock_llm_run_eq:
  assumes "\<And>xs. distinct (layout xs) \<and> set (layout xs) = set xs"
  shows "mock_llm_run layout self question = mock_llm self question"
  unfolding mock_llm_run_def mock_llm_def mock_query_run_def mock_query_def
    best_loop_run_eq[of layout, OF assms] ..

lemma mock_llm_frame: "df a = df b \<Longrightarrow> mock_llm a question = mock_llm b question"
proof -
  assume e: "df a = df b"
  show ?thesis unfolding mock_llm_def mock_query_def e ..
qed

lemma mock_llm_total: "\<exists>col val. mock_llm self question = Inr (dumps_query col val)"
proof -
  obtain b v where "mock_query self question = Inr (b, v)" using mock_query_total by blast
  then show ?thesis by (auto simp: mock_llm_def)
qed

subsection \<open>Evaluations on the example data\<close>

lemma execute_rows_sev_mild: "execute rows_sev ''AESEV'' ''mild'' = Inr (1, [''S1''])"
  by code_simp

lemma mock_query_headache: "mock_query agent_failing q_headache = Inr (''AETERM'', ''Headache'')"
  by code_simp

lemma parse_question_overridden: "parse_question repr_unused (agent_answering answer_usubjid) q_headache
    = Inr \<lparr>target_column = ustr ''AETERM'', filter_value = ustr ''S1''\<rparr>"
  by code_simp

lemma parse_question_kept: "parse_question repr_unused (agent_answering answer_usubjid) ''Events of Subject ID S1?''
    = Inr \<lparr>target_column = ustr ''USUBJID'', filter_value = ustr ''S1''\<rparr>"
  by code_simp

lemma parse_question_unknown_column: "parse_question repr_unused (agent_answering answer_unknown) q_headache
    = Inr \<lparr>target_column = ustr ''AETERM'', filter_value = ustr ''Rash''\<rparr>"
  by code_simp

lemma parse_question_escapes: "parse_question repr_unused (agent_answering answer_sev) q_headache
    = Inr \<lparr>target_column = ustr ''AESEV'', filter_value = ustr ''na'' @ [239] @ ustr ''ve '' @ [256, 32, 128512]\<rparr>"
  by code_simp

lemma raw_of_answer_usubjid:
  "(if use_llm (agent_answering answer_usubjid) then call_llm (agent_answering answer_usubjid) q_headache
    else mock_llm (agent_answering answer_usubjid) q_headache) = Inr answer_usubjid"
  by code_simp

lemma answer_usubjid_split:
  "answer_usubjid = ''Here you go: '' @ CHR ''{'' # answer_usubjid_mid @ CHR ''}'' # [] \<and>
     CHR ''{'' \<notin> set ''Here you go: '' \<and> CHR ''}'' \<notin> set []"
  by (simp add: answer_usubjid_def answer_usubjid_mid_def)

lemma json_loads_answer_usubjid:
  "json_loads (CHR ''{'' # answer_usubjid_mid @ [CHR ''}'']) =
     Inr (JObj [(ustr ''target_column'', JStr (ustr ''USUBJID'')), (ustr ''filter_value'', JStr (ustr '' S1 ''))])"
  by code_simp

lemma mock_query_eye: "mock_query agent_mock q_eye = Inr (''AESOC'', ''Eye disorders'')"
  by code_simp

lemma score_eye_AESOC: "score (lower q_eye) ''AESOC'' = Inr 2"
  by code_simp

lemma split_at_AESOC:
  assumes "[''AETERM'', ''AESOC'', ''AESEV'', ''AEDECOD''] = pre @ ''AESOC'' # post"
  shows "pre = [''AETERM'']"
proof -
  have d: "distinct (pre @ ''AESOC'' # post)" unfolding assms[symmetric] by simp
  have n1: "''AESOC'' \<notin> set pre" using d by simp
  have n2: "''AESOC'' \<notin> set post" using d by simp
  have eq: "pre @ ''AESOC'' # post = [''AETERM''] @ ''AESOC'' # [''AESEV'', ''AEDECOD'']"
    unfolding assms[symmetric] by simp
  have iff: "(pre @ ''AESOC'' # post = [''AETERM''] @ ''AESOC'' # [''AESEV'', ''AEDECOD'']) =
      (pre = [''AETERM''] \<and> post = [''AESEV'', ''AEDECOD''])"
    using n1 n2 by (rule append_Cons_eq_iff)
  show ?thesis using eq unfolding iff by (rule conjunct1)
qed

lemma find_eye_candidate:
  "find (\<lambda>v. v \<noteq> [] \<and> sublist (lower v) (lower q_eye)) [''Cardiac disorders'', ''Eye disorders'']
   = Some ''Eye disorders''"
  by code_simp

lemma candidates_eye:
  "take 5000 (sort_key (\<lambda>v. - int (length v))
     (rev (remdups (rev (map the (filter (\<lambda>c. c \<noteq> None) (map AESOC (df agent_mock))))))))
   = [''Cardiac disorders'', ''Eye disorders'']"
  by code_simp

lemma mock_query_quoted: "mock_query agent_mock q_quoted = Inr (''AETERM'', ''Rash'')"
  by code_simp

lemma mock_query_two_quotes: "mock_query agent_mock q_two_quotes = Inr (''AETERM'', '' and '')"
  by code_simp

lemma mock_query_tokens: "mock_query agent_mock q_tokens = Inr (''AETERM'', ''events in subjects'')"
  by code_simp

lemma layouts_differ:
  "layout_first (findall_lower_alnum (lower q_eye)) \<noteq>
   layout_by_length (findall_lower_alnum (lower q_eye))"
  by code_simp

lemma mock_llm_run_eye: "mock_llm_run layout_first agent_mock q_eye = Inr answer_eye"
  by code_simp

section \<open>The claims\<close>

text \<open>
  Claim C1 says that \<open>parse_question\<close> falls back to the matcher when the call of the
  collaborator raises. The comment in \<open>parse_question\<close> says the same, but the call is not
  guarded: for the agent whose collaborator raises on every prompt, \<open>parse_question\<close> ends
  with that exception, although the matcher has an answer for the same question.
\<close>

theorem parse_question_llm_failure_not_recovered:
  "use_llm agent_failing \<and>
   call_llm agent_failing q_headache = Inl LLMError \<and>
   parse_question repr_unused agent_failing q_headache = Inl LLMError \<and>
   mock_query agent_failing q_headache = Inr (''AETERM'', ''Headache'')"
proof -
  have u: "use_llm agent_failing" by (simp add: agent_failing_def init_def)
  have l: "llm agent_failing = Some (\<lambda>p. Inl LLMError)" by (simp add: agent_failing_def init_def)
  have c: "call_llm agent_failing q_headache = Inl LLMError"
    using l by (rule call_llm_raises) simp
  show ?thesis using u c parse_question_llm_raises[OF u c] mock_query_headache by simp
qed

text \<open>
  Claim C2: on both paths, whenever \<open>parse_question\<close> returns, the text it decoded is an
  object, and the column it returns is fixed by \<open>c\<close>, the stripped text of the object's
  \<open>target_column\<close> (the empty text when the object has none): it is \<open>c\<close> when \<open>c\<close> is one
  of \<open>AETERM\<close>, \<open>AESOC\<close>, \<open>AESEV\<close>, \<open>AEDECOD\<close>; it is \<open>USUBJID\<close> when \<open>c\<close> is \<open>USUBJID\<close>
  and the pattern for the subject id matches the question; it is \<open>AETERM\<close> in every other
  case. So the column is one of the four, or it is \<open>USUBJID\<close> and the lowercased question
  contains \<open>usubjid\<close> or \<open>subject id\<close>. Lemma \<open>parse_question_errors\<close> above lists the
  other outcomes of the model: the exception of the collaborator, a decoding error, and
  an answer that decodes to something other than an object.
\<close>

theorem parse_question_target_column:
  assumes "parse_question repr self question = Inr r"
  shows "\<exists>raw kvs.
     (if use_llm self then call_llm self question else mock_llm self question) = Inr raw \<and>
     json_loads (case search_braces raw of Some g \<Rightarrow> g | None \<Rightarrow> raw) = Inr (JObj kvs) \<and>
     target_column r =
       (let c = ustrip (py_str repr (dict_get kvs (ustr ''target_column'') (JStr [])))
        in if c \<in> {ustr ''AETERM'', ustr ''AESOC'', ustr ''AESEV'', ustr ''AEDECOD''} then c
           else if c = ustr ''USUBJID'' \<and> search_subject question then ustr ''USUBJID''
           else ustr ''AETERM'') \<and>
     (target_column r \<in> {ustr ''AETERM'', ustr ''AESOC'', ustr ''AESEV'', ustr ''AEDECOD''} \<or>
      (target_column r = ustr ''USUBJID'' \<and> search_subject question \<and>
       (sublist ''usubjid'' (lower question) \<or> sublist ''subject id'' (lower question))))"
proof -
  obtain raw where raw:
    "(if use_llm self then call_llm self question else mock_llm self question) = Inr raw"
    using assms by (auto simp: parse_question_def split: sum.splits)
  let ?p = "case search_braces raw of Some g \<Rightarrow> g | None \<Rightarrow> raw"
  obtain obj where obj: "json_loads ?p = Inr obj" and v: "validate repr question obj = Inr r"
    using assms raw by (auto simp: parse_question_def split: sum.splits)
  obtain kvs where kvs: "obj = JObj kvs" and
    t: "target_column r =
       (let c = ustrip (py_str repr (dict_get kvs (ustr ''target_column'') (JStr [])))
        in if c \<in> {ustr ''AETERM'', ustr ''AESOC'', ustr ''AESEV'', ustr ''AEDECOD''} then c
           else if c = ustr ''USUBJID'' \<and> search_subject question then ustr ''USUBJID''
           else ustr ''AETERM'')"
    using validate_result[OF v] by blast
  have "target_column r \<in> {ustr ''AETERM'', ustr ''AESOC'', ustr ''AESEV'', ustr ''AEDECOD''} \<or>
         (target_column r = ustr ''USUBJID'' \<and> search_subject question)"
    using v by (rule validate_column)
  then have m: "target_column r \<in> {ustr ''AETERM'', ustr ''AESOC'', ustr ''AESEV'', ustr ''AEDECOD''} \<or>
      (target_column r = ustr ''USUBJID'' \<and> search_subject question \<and>
       (sublist ''usubjid'' (lower question) \<or> sublist ''subject id'' (lower question)))"
    using search_subject_from_sublist[of True question] by (auto simp: search_subject_def)
  show ?thesis using raw obj kvs t m by blast
qed

text \<open>
  Witness for C2: the collaborator answers with \<open>USUBJID\<close>, and the column becomes
  \<open>AETERM\<close> for a question that does not name the subject id and stays for one that
  does; an answer with two columns that are not in the schema gives \<open>AETERM\<close>; an answer
  with \<open>AESEV\<close> between spaces gives \<open>AESEV\<close>, its filter value holding escapes of code
  points above U+00FF.
\<close>

theorem parse_question_target_column_witness:
  "parse_question repr_unused (agent_answering answer_usubjid) q_headache
     = Inr \<lparr>target_column = ustr ''AETERM'', filter_value = ustr ''S1''\<rparr> \<and>
   parse_question repr_unused (agent_answering answer_usubjid) ''Events of Subject ID S1?''
     = Inr \<lparr>target_column = ustr ''USUBJID'', filter_value = ustr ''S1''\<rparr> \<and>
   parse_question repr_unused (agent_answering answer_unknown) q_headache
     = Inr \<lparr>target_column = ustr ''AETERM'', filter_value = ustr ''Rash''\<rparr> \<and>
   parse_question repr_unused (agent_answering answer_sev) q_headache
     = Inr \<lparr>target_column = ustr ''AESEV'',
            filter_value = ustr ''na'' @ [239] @ ustr ''ve '' @ [256, 32, 128512]\<rparr> \<and>
   search_subject ''Events of Subject ID S1?'' \<and>
   sublist ''subject id'' (lower ''Events of Subject ID S1?'')"
proof -
  have n: "ustr ''USUBJID'' \<notin> {ustr ''AETERM'', ustr ''AESOC'', ustr ''AESEV'', ustr ''AEDECOD''}"
    using ustr_names_distinct by simp
  have u: "target_column \<lparr>target_column = ustr ''USUBJID'', filter_value = ustr ''S1''\<rparr>
      = ustr ''USUBJID''" by simp
  have k: "search_subject ''Events of Subject ID S1?'' \<and>
      (sublist ''usubjid'' (lower ''Events of Subject ID S1?'') \<or>
       sublist ''subject id'' (lower ''Events of Subject ID S1?''))"
    using parse_question_target_column[OF parse_question_kept] n unfolding u by blast
  have nd: "\<not> sublist ''usubjid'' (lower ''Events of Subject ID S1?'')"
    by code_simp
  have s1: "search_subject ''Events of Subject ID S1?''" using k by (rule conjunct1)
  have s2: "sublist ''subject id'' (lower ''Events of Subject ID S1?'')"
    using k nd by (elim conjE disjE) (rule notE)
  show ?thesis
    by (intro conjI) (rule parse_question_overridden, rule parse_question_kept, rule parse_question_unknown_column, rule parse_question_escapes, rule s1, rule s2)
qed

text \<open>
  Claim C3 says that \<open>execute\<close> selects exactly the rows whose value in the column equals
  the filter value up to case when some value of the column that is not missing does,
  and otherwise the rows whose value contains the filter value. \<open>execute\<close> compares and
  searches the column after \<open>astype(str)\<close>, where a missing cell is the text \<open>nan\<close>. In the
  frame \<open>rows_nan\<close> the first row has the severity \<open>NAN\<close> and the second row has none. The
  filter value \<open>nan\<close> equals the severity of the first row up to case, so the exact branch
  is taken, and it selects both rows. The filter value \<open>an\<close> equals no severity, so the
  substring branch is taken, and it selects both rows as well. The second row has no
  value that could equal or contain the filter value.
\<close>

theorem execute_selects_missing_as_nan:
  "AESEV (rows_nan ! 1) = None \<and>
   lower ''nan'' \<in> set (map lower (dropna_str (map AESEV rows_nan))) \<and>
   mask rows_nan ''AESEV'' ''nan'' = Inr [True, True] \<and>
   execute rows_nan ''AESEV'' ''nan'' = Inr (2, [''S1'', ''S2'']) \<and>
   lower ''an'' \<notin> set (map lower (dropna_str (map AESEV rows_nan))) \<and>
   mask rows_nan ''AESEV'' ''an'' = Inr [True, True] \<and>
   execute rows_nan ''AESEV'' ''an'' = Inr (2, [''S1'', ''S2''])"
  by code_simp

text \<open>
  Claim C4 says that the substring branch never selects a row whose target cell is
  missing, and that the empty filter value selects the rows with a value. \<open>execute\<close>
  passes \<open>na=False\<close> to that end, but it searches the column after \<open>astype(str)\<close>, where a
  missing cell is the text \<open>nan\<close>: in \<open>rows_missing\<close> the second row has no \<open>AESEV\<close>, the
  empty filter value takes the substring branch and selects both rows, and the filter
  value \<open>A\<close> selects the second row alone.
\<close>

theorem execute_substring_selects_missing:
  "AESEV (rows_missing ! 1) = None \<and>
   lower [] \<notin> set (map lower (dropna_str (map AESEV rows_missing))) \<and>
   mask rows_missing ''AESEV'' [] = Inr [True, True] \<and>
   execute rows_missing ''AESEV'' [] = Inr (2, [''S1'', ''S2'']) \<and>
   execute rows_missing ''AESEV'' ''A'' = Inr (1, [''S2''])"
  by code_simp

text \<open>
  Claim C5 as stated fails twice. An answer of two objects begins with an object that
  decodes, yet the search takes both objects and what lies between them, and the result is
  a decoding error. An answer that is a JSON string with braces inside decodes as a whole,
  yet the braces alone are decoded, and the error of that is the result: the whole answer
  is not tried.
\<close>

theorem parse_question_no_second_parse:
  "prefix answer_first_object answer_two_objects \<and>
   json_loads answer_first_object =
     Inr (JObj [(ustr ''target_column'', JStr (ustr ''AESEV'')), (ustr ''filter_value'', JStr (ustr ''MILD''))]) \<and>
   search_braces answer_two_objects = Some answer_two_objects \<and>
   parse_question repr_unused (agent_answering answer_two_objects) q_headache = Inl JSONDecodeError \<and>
   search_braces answer_quoted_braces = Some ''{x}'' \<and>
   json_loads ''{x}'' = Inl JSONDecodeError \<and>
   json_loads answer_quoted_braces = Inr (JStr (ustr ''{x}'')) \<and>
   parse_question repr_unused (agent_answering answer_quoted_braces) q_headache = Inl JSONDecodeError"
  by code_simp

text \<open>
  Claim C5, as amended. \<open>parse_question\<close> decodes one text and never a second one. When
  the answer holds an opening brace with a closing brace somewhere behind it, the text
  decoded is the one from the first opening brace to the last closing brace, and the rest
  of the answer is not looked at; when it holds no such pair, the text decoded is the whole
  answer. An error of that one decoding is the result.
\<close>

theorem parse_question_single_parse:
  assumes "(if use_llm self then call_llm self question else mock_llm self question) = Inr raw"
  shows "(\<forall>pre mid post.
            raw = pre @ CHR ''{'' # mid @ CHR ''}'' # post \<and>
            CHR ''{'' \<notin> set pre \<and> CHR ''}'' \<notin> set post \<longrightarrow>
            parse_question repr self question =
              (case json_loads (CHR ''{'' # mid @ [CHR ''}'']) of
                 Inl e \<Rightarrow> Inl e
               | Inr obj \<Rightarrow> validate repr question obj)) \<and>
         ((\<nexists>pre mid post. raw = pre @ CHR ''{'' # mid @ CHR ''}'' # post) \<longrightarrow>
            parse_question repr self question =
              (case json_loads raw of
                 Inl e \<Rightarrow> Inl e
               | Inr obj \<Rightarrow> validate repr question obj))"
proof (intro conjI allI impI)
  fix pre mid post
  assume "raw = pre @ CHR ''{'' # mid @ CHR ''}'' # post \<and>
            CHR ''{'' \<notin> set pre \<and> CHR ''}'' \<notin> set post"
  then have "search_braces raw = Some (CHR ''{'' # mid @ [CHR ''}''])"
    using search_braces_Some by blast
  then show "parse_question repr self question =
              (case json_loads (CHR ''{'' # mid @ [CHR ''}'']) of
                 Inl e \<Rightarrow> Inl e
               | Inr obj \<Rightarrow> validate repr question obj)"
    using assms by (simp add: parse_question_def)
next
  assume "\<nexists>pre mid post. raw = pre @ CHR ''{'' # mid @ CHR ''}'' # post"
  then have "search_braces raw = None" by (rule search_braces_None)
  then show "parse_question repr self question =
              (case json_loads raw of
                 Inl e \<Rightarrow> Inl e
               | Inr obj \<Rightarrow> validate repr question obj)"
    using assms by (simp add: parse_question_def)
qed

text \<open>
  Witness for the amended C5: an answer with words before the object.
\<close>

theorem parse_question_single_parse_witness:
  "answer_usubjid = ''Here you go: '' @ CHR ''{'' # answer_usubjid_mid @ CHR ''}'' # [] \<and>
   parse_question repr_unused (agent_answering answer_usubjid) q_headache =
     validate repr_unused q_headache
       (JObj [(ustr ''target_column'', JStr (ustr ''USUBJID'')), (ustr ''filter_value'', JStr (ustr '' S1 ''))])"
proof -
  have "parse_question repr_unused (agent_answering answer_usubjid) q_headache =
      (case json_loads (CHR ''{'' # answer_usubjid_mid @ [CHR ''}'']) of
                 Inl e \<Rightarrow> Inl e
               | Inr obj \<Rightarrow> validate repr_unused q_headache obj)"
    using parse_question_single_parse[OF raw_of_answer_usubjid, of repr_unused] answer_usubjid_split
    by blast
  then show ?thesis using answer_usubjid_split by (simp add: json_loads_answer_usubjid)
qed

text \<open>
  Claim C6: when \<open>execute\<close> returns \<open>(n, ids)\<close>, no identifier occurs twice in \<open>ids\<close>,
  \<open>n\<close> is the length of \<open>ids\<close>, and \<open>ids\<close> holds exactly the texts of the identifiers of
  the selected rows that are not missing.
\<close>

theorem execute_ids_distinct:
  assumes "execute rows tcol fval = Inr (n, ids)"
  shows "distinct ids \<and> n = length ids \<and>
    (\<exists>m. mask rows tcol fval = Inr m \<and>
         set ids = {s. \<exists>r \<in> set (loc rows m). USUBJID r = Some s})"
proof -
  obtain m where m: "mask rows tcol fval = Inr m"
    using assms by (cases "mask rows tcol fval") (auto simp: execute_def)
  have ids: "ids = unique (dropna_str (map USUBJID (loc rows m)))" and n: "n = length ids"
    using assms m by (auto simp: execute_def Let_def)
  have "set ids = {s. \<exists>r \<in> set (loc rows m). USUBJID r = Some s}"
    unfolding ids by (auto simp: set_unique set_dropna_str intro: rev_image_eqI)
  then show ?thesis using m n ids distinct_unique by blast
qed

text \<open>
  Witness for C6: three rows match \<open>mild\<close>, two of subject \<open>S1\<close> and one without an
  identifier; the answer names \<open>S1\<close> once.
\<close>

theorem execute_ids_distinct_witness:
  "execute rows_sev ''AESEV'' ''mild'' = Inr (1, [''S1'']) \<and> distinct [''S1''] \<and>
   (1::nat) = length [''S1'']"
  using execute_ids_distinct[of rows_sev "''AESEV''" "''mild''" 1 "[''S1'']"] execute_rows_sev_mild by simp

text \<open>
  Claim C7: the columns scored are \<open>AETERM\<close>, \<open>AESOC\<close>, \<open>AESEV\<close>, \<open>AEDECOD\<close> in this order.
  The score of a column of the schema against a lowercased question is the number of
  tokens the question shares with the column's name and description, plus 2 when the
  lowercased name occurs in the question. The column the matcher returns has a score
  above that of every column before it and at least that of every column behind it.
\<close>

theorem mock_column_first_best:
  "cols_to_score = [''AETERM'', ''AESOC'', ''AESEV'', ''AEDECOD''] \<and>
   (\<forall>col desc. (col, desc) \<in> set SCHEMA \<longrightarrow>
      score q col =
        Inr (int (card (set (findall_lower_alnum q) \<inter>
                        set (findall_lower_alnum (lower (col @ '' '' @ desc)))))
             + (if sublist (lower col) q then 2 else 0))) \<and>
   (\<exists>best_col val sc pre post.
      mock_query self question = Inr (best_col, val) \<and>
      cols_to_score = pre @ best_col # post \<and>
      score (lower question) best_col = Inr sc \<and>
      (\<forall>c \<in> set pre. \<exists>s. score (lower question) c = Inr s \<and> s < sc) \<and>
      (\<forall>c \<in> set post. \<exists>s. score (lower question) c = Inr s \<and> s \<le> sc))"
proof (intro conjI allI impI)
  show "cols_to_score = [''AETERM'', ''AESOC'', ''AESEV'', ''AEDECOD'']"
    by (rule cols_to_score_eq)
next
  fix col desc
  assume "(col, desc) \<in> set SCHEMA"
  then show "score q col =
        Inr (int (card (set (findall_lower_alnum q) \<inter>
                        set (findall_lower_alnum (lower (col @ '' '' @ desc)))))
             + (if sublist (lower col) q then 2 else 0))"
    by (rule score_formula)
next
  obtain b bs pre post where
    r: "best_loop (lower question) cols_to_score (''AETERM'', - 1) = Inr (b, bs)" and
    c: "cols_to_score = pre @ b # post" and
    s: "score (lower question) b = Inr bs" and
    p: "\<forall>c \<in> set pre. \<exists>s. score (lower question) c = Inr s \<and> s < bs"
       "\<forall>c \<in> set post. \<exists>s. score (lower question) c = Inr s \<and> s \<le> bs"
    using best_loop_cols[of "lower question"] by blast
  have "b \<in> set cols_to_score" unfolding c by simp
  then obtain col where "column b = Some col" using column_cols_to_score by blast
  then have "mock_query self question =
      Inr (b, pick_value (candidates (map col (df self))) question)"
    using r by (simp add: mock_query_def)
  then show "\<exists>best_col val sc pre post.
      mock_query self question = Inr (best_col, val) \<and>
      cols_to_score = pre @ best_col # post \<and>
      score (lower question) best_col = Inr sc \<and>
      (\<forall>c \<in> set pre. \<exists>s. score (lower question) c = Inr s \<and> s < sc) \<and>
      (\<forall>c \<in> set post. \<exists>s. score (lower question) c = Inr s \<and> s \<le> sc)"
    using c s p by blast
qed

text \<open>
  Witness for C7: for the question about eye disorders \<open>AESOC\<close> scores 2 and \<open>AETERM\<close>,
  the one column before it, scores less.
\<close>

theorem mock_column_first_best_witness:
  "mock_query agent_mock q_eye = Inr (''AESOC'', ''Eye disorders'') \<and>
   score (lower q_eye) ''AESOC'' = Inr 2 \<and>
   (\<exists>s. score (lower q_eye) ''AETERM'' = Inr s \<and> s < 2)"
proof -
  obtain best_col val sc pre post where
    m: "mock_query agent_mock q_eye = Inr (best_col, val)" and
    c: "cols_to_score = pre @ best_col # post" and
    s: "score (lower q_eye) best_col = Inr sc" and
    p: "\<forall>c \<in> set pre. \<exists>s. score (lower q_eye) c = Inr s \<and> s < sc"
    using mock_column_first_best[of "lower q_eye" agent_mock q_eye] by blast
  have b: "best_col = ''AESOC''" using m mock_query_eye by simp
  have sc: "sc = 2" using s score_eye_AESOC unfolding b by simp
  have "pre = [''AETERM'']"
    using c unfolding b cols_to_score_eq by (rule split_at_AESOC)
  then have "\<exists>s. score (lower q_eye) ''AETERM'' = Inr s \<and> s < 2"
    using p sc by simp
  then show ?thesis using mock_query_eye score_eye_AESOC by simp
qed

text \<open>
  Claim C8 as stated fails twice. For a column that holds the empty text, the empty text
  is the first candidate that occurs in the question, but the matcher does not choose it
  and falls through to the last three tokens. For a question with two quotes and nothing
  between them and no candidate in it, the question holds a quoted text, the empty one,
  but the matcher falls through to the tokens.
\<close>

theorem mock_value_empty_candidate_skipped:
  "candidates (map AETERM (df agent_blank_term)) = [[]] \<and>
   find (\<lambda>v. str_in (lower v) (lower q_headache)) (candidates (map AETERM (df agent_blank_term)))
     = Some [] \<and>
   quoted q_headache = None \<and>
   mock_query agent_blank_term q_headache = Inr (''AETERM'', ''subjects experienced Headache'') \<and>
   q_empty_quotes = ''Find '' @ [dquote, dquote] @ '' events'' \<and>
   find (\<lambda>v. str_in (lower v) (lower q_empty_quotes)) (candidates (map AETERM (df agent_mock)))
     = None \<and>
   quoted q_empty_quotes = None \<and>
   mock_query agent_mock q_empty_quotes = Inr (''AETERM'', ''Find events'')"
  by code_simp

text \<open>
  Claim C8, as amended. The matcher always answers. Its candidates \<open>vals\<close> are the texts of
  the cells of the chosen column that are not missing, each kept where it first occurs,
  sorted by a stable sort with the longer before the shorter, and cut after the first 5000:
  so they are distinct, their number is the smaller of 5000 and the number of distinct
  texts in the column, and a text left out is no longer than any candidate. The filter
  value is the first candidate that is not empty and occurs in the question up to case.
  When there is none, it is the text \<open>g\<close> that \<open>quoted\<close> gives: \<open>g\<close> is not empty, holds no
  quote and stands between two quotes of the question, and the first of these two quotes
  is the leftmost quote of the question with such a text behind it. When the question
  holds no such text, the filter value is made of the last three tokens of the question,
  the maximal runs of ASCII letters and digits, with one space between them.
\<close>

theorem mock_value_first_nonempty:
  "\<exists>best_col val col vals.
     mock_query self question = Inr (best_col, val) \<and>
     column best_col = Some col \<and>
     vals = take 5000 (sort_key (\<lambda>v. - int (length v))
              (rev (remdups (rev (map the (filter (\<lambda>c. c \<noteq> None) (map col (df self)))))))) \<and>
     set vals \<subseteq> {s. \<exists>r \<in> set (df self). col r = Some s} \<and>
     distinct vals \<and>
     length vals = min 5000 (card {s. \<exists>r \<in> set (df self). col r = Some s}) \<and>
     sorted_wrt (\<lambda>a b. length b \<le> length a) vals \<and>
     (\<forall>u. (\<exists>r \<in> set (df self). col r = Some u) \<and> u \<notin> set vals \<longrightarrow>
          (\<forall>v \<in> set vals. length u \<le> length v)) \<and>
     val = (case find (\<lambda>v. v \<noteq> [] \<and> sublist (lower v) (lower question)) vals of
              Some v \<Rightarrow> v
            | None \<Rightarrow>
                (case quoted question of
                   Some g \<Rightarrow> g
                 | None \<Rightarrow>
                     (case rev (findall_alnum question) of
                        [] \<Rightarrow> []
                      | [a] \<Rightarrow> a
                      | [b, a] \<Rightarrow> a @ '' '' @ b
                      | c # b # a # earlier \<Rightarrow> a @ '' '' @ b @ '' '' @ c))) \<and>
     (case quoted question of
        Some g \<Rightarrow>
          \<exists>pre post. question = pre @ dquote # g @ dquote # post \<and> g \<noteq> [] \<and> dquote \<notin> set g \<and>
            (\<forall>pre' g' post'.
               question = pre' @ dquote # g' @ dquote # post' \<and> g' \<noteq> [] \<and> dquote \<notin> set g'
               \<longrightarrow> length pre \<le> length pre')
      | None \<Rightarrow>
          \<not> (\<exists>pre g post. question = pre @ dquote # g @ dquote # post \<and> g \<noteq> [] \<and>
                dquote \<notin> set g)) \<and>
     (\<forall>t. findall_alnum t =
        (case dropWhile (\<lambda>c. \<not> is_alnum c) t of
           [] \<Rightarrow> []
         | c # cs \<Rightarrow> takeWhile is_alnum (c # cs) # findall_alnum (dropWhile is_alnum (c # cs))))"
proof -
  obtain best_col val where mq: "mock_query self question = Inr (best_col, val)"
    using mock_query_total by blast
  obtain bs where "best_loop (lower question) cols_to_score (''AETERM'', - 1) = Inr (best_col, bs)"
    using mq by (auto simp: mock_query_def split: sum.splits option.splits)
  then obtain col where c: "column best_col = Some col"
    and v: "val = pick_value (candidates (map col (df self))) question"
    using mq by (auto simp: mock_query_def split: option.splits)
  let ?vals = "candidates (map col (df self))"
  have m: "\<And>s. (Some s \<in> set (map col (df self))) = (\<exists>r \<in> set (df self). col r = Some s)"
    by (auto simp: image_iff) metis
  have eq: "?vals = take 5000 (sort_key (\<lambda>v. - int (length v))
              (rev (remdups (rev (map the (filter (\<lambda>c. c \<noteq> None) (map col (df self))))))))"
    by (rule candidates_eq)
  have sub: "set ?vals \<subseteq> {s. \<exists>r \<in> set (df self). col r = Some s}"
    using candidates_subset[of "map col (df self)"] unfolding m .
  have len: "length ?vals = min 5000 (card {s. \<exists>r \<in> set (df self). col r = Some s})"
    using candidates_card[of "map col (df self)"] unfolding m .
  have drp: "\<forall>u. (\<exists>r \<in> set (df self). col r = Some u) \<and> u \<notin> set ?vals \<longrightarrow>
          (\<forall>v \<in> set ?vals. length u \<le> length v)"
    using candidates_dropped[of _ "map col (df self)"] unfolding m by blast
  have pv: "val = (case find (\<lambda>v. v \<noteq> [] \<and> sublist (lower v) (lower question)) ?vals of
              Some v \<Rightarrow> v
            | None \<Rightarrow>
                (case quoted question of
                   Some g \<Rightarrow> g
                 | None \<Rightarrow>
                     (case rev (findall_alnum question) of
                        [] \<Rightarrow> []
                      | [a] \<Rightarrow> a
                      | [b, a] \<Rightarrow> a @ '' '' @ b
                      | c # b # a # earlier \<Rightarrow> a @ '' '' @ b @ '' '' @ c)))"
    unfolding v join_last3[symmetric] by (rule pick_value_sorted) (rule candidates_sorted)
  have fa: "\<forall>t. findall_alnum t =
        (case dropWhile (\<lambda>c. \<not> is_alnum c) t of
           [] \<Rightarrow> []
         | c # cs \<Rightarrow> takeWhile is_alnum (c # cs) # findall_alnum (dropWhile is_alnum (c # cs)))"
    using findall_alnum_rec by blast
  show ?thesis
    apply (rule exI[of _ best_col])
    apply (rule exI[of _ val])
    apply (rule exI[of _ col])
    apply (rule exI[of _ ?vals])
    apply (intro conjI)
              apply (rule mq)
             apply (rule c)
            apply (rule eq)
           apply (rule sub)
          apply (rule candidates_distinct)
         apply (rule len)
        apply (rule candidates_sorted)
       apply (rule drp)
      apply (rule pv)
     apply (rule quoted_spec)
    apply (rule fa)
    done
qed

text \<open>
  Witness for the amended C8: of two candidates the second one occurs in the question; a
  question with a quoted text and no candidate; a question whose first two quotes hold
  nothing, so that the text between the second and the third quote is taken; a question
  with neither candidate nor quote.
\<close>

theorem mock_value_first_nonempty_witness:
  "mock_query agent_mock q_eye = Inr (''AESOC'', ''Eye disorders'') \<and>
   card {s. \<exists>r \<in> set (df agent_mock). AESOC r = Some s} = 2 \<and>
   find (\<lambda>v. v \<noteq> [] \<and> sublist (lower v) (lower q_eye)) [''Cardiac disorders'', ''Eye disorders'']
     = Some ''Eye disorders'' \<and>
   mock_query agent_mock q_quoted = Inr (''AETERM'', ''Rash'') \<and>
   mock_query agent_mock q_two_quotes = Inr (''AETERM'', '' and '') \<and>
   mock_query agent_mock q_tokens = Inr (''AETERM'', ''events in subjects'')"
proof -
  obtain best_col val col vals where
    q: "mock_query agent_mock q_eye = Inr (best_col, val)" and
    c: "column best_col = Some col" and
    v: "vals = take 5000 (sort_key (\<lambda>v. - int (length v))
              (rev (remdups (rev (map the (filter (\<lambda>c. c \<noteq> None) (map col (df agent_mock))))))))" and
    l: "length vals = min 5000 (card {s. \<exists>r \<in> set (df agent_mock). col r = Some s})"
    using mock_value_first_nonempty[of agent_mock q_eye] by blast
  have b: "best_col = ''AESOC''" using q mock_query_eye by simp
  have a: "col = AESOC" using c unfolding b by (simp add: column_def)
  have "vals = [''Cardiac disorders'', ''Eye disorders'']"
    using v unfolding a candidates_eye .
  then have "length vals = 2" by simp
  then have "min 5000 (card {s. \<exists>r \<in> set (df agent_mock). AESOC r = Some s}) = 2"
    using l unfolding a by (simp only:)
  then have k: "card {s. \<exists>r \<in> set (df agent_mock). AESOC r = Some s} = 2"
    by (simp add: min_def split: if_splits)
  show ?thesis
    by (intro conjI) (rule mock_query_eye, rule k, rule find_eye_candidate, rule mock_query_quoted, rule mock_query_two_quotes,
      rule mock_query_tokens)
qed

text \<open>
  Claim C9: two runs of \<open>_mock_llm\<close> on one question and one frame give the same JSON
  text. A run is given by the layout of its sets and by the agent: for every two layouts
  that keep each element once, and every two agents with the same frame, whatever their
  other fields hold, the two runs return the same text; it is the text that \<open>mock_llm\<close>
  gives, and it is the encoding of a query.
\<close>

theorem mock_llm_run_deterministic:
  assumes "\<And>xs. distinct (layout1 xs) \<and> set (layout1 xs) = set xs"
    and "\<And>xs. distinct (layout2 xs) \<and> set (layout2 xs) = set xs"
    and "df a = df b"
  shows "mock_llm_run layout1 a question = mock_llm_run layout2 b question \<and>
         mock_llm_run layout1 a question = mock_llm a question \<and>
         (\<exists>col val. mock_llm_run layout1 a question = Inr (dumps_query col val))"
proof -
  have 1: "mock_llm_run layout1 a question = mock_llm a question"
    using assms(1) by (rule mock_llm_run_eq)
  have 2: "mock_llm_run layout2 b question = mock_llm b question"
    using assms(2) by (rule mock_llm_run_eq)
  have 3: "mock_llm a question = mock_llm b question" using assms(3) by (rule mock_llm_frame)
  show ?thesis unfolding 1 2 using 3 mock_llm_total[of a question] by simp
qed

text \<open>
  Witness for C9: one layout walks a set in the order of first insertion, the other from
  the shortest token to the longest, and they walk the tokens of the question differently;
  one agent has a collaborator and the other has none. Both runs give the same text.
\<close>

theorem mock_llm_run_deterministic_witness:
  "(\<forall>xs. distinct (layout_first xs) \<and> set (layout_first xs) = set xs) \<and>
   (\<forall>xs. distinct (layout_by_length xs) \<and> set (layout_by_length xs) = set xs) \<and>
   df agent_mock = df agent_failing \<and>
   use_llm agent_mock \<noteq> use_llm agent_failing \<and>
   layout_first (findall_lower_alnum (lower q_eye)) \<noteq>
     layout_by_length (findall_lower_alnum (lower q_eye)) \<and>
   mock_llm_run layout_first agent_mock q_eye = Inr answer_eye \<and>
   mock_llm_run layout_by_length agent_failing q_eye = Inr answer_eye"
proof -
  have l1: "\<And>xs. distinct (layout_first xs) \<and> set (layout_first xs) = set xs"
    by (simp add: layout_first_def)
  have l2: "\<And>xs. distinct (layout_by_length xs) \<and> set (layout_by_length xs) = set xs"
    by (simp add: layout_by_length_def)
  have d: "df agent_mock = df agent_failing"
    by (simp add: agent_mock_def agent_failing_def init_def)
  have u: "use_llm agent_mock \<noteq> use_llm agent_failing"
    by (simp add: agent_mock_def agent_failing_def init_def)
  have "mock_llm_run layout_first agent_mock q_eye =
      mock_llm_run layout_by_length agent_failing q_eye"
    using mock_llm_run_deterministic[of layout_first layout_by_length, OF l1 l2 d]
    by (rule conjunct1)
  then have r2: "mock_llm_run layout_by_length agent_failing q_eye = Inr answer_eye"
    using mock_llm_run_eye by simp
  show ?thesis
    using l1 l2 d u layouts_differ mock_llm_run_eye r2 by blast
qed

text \<open>
  Claim C10: for a question made of white space only (the empty question included) and an
  agent that does not use the collaborator, \<open>parse_question\<close> returns the column \<open>AETERM\<close>
  and the empty filter value, for every frame.
\<close>

theorem parse_question_blank:
  assumes "\<forall>c \<in> set question. is_space c" and "\<not> use_llm self"
  shows "parse_question repr self question =
           Inr \<lparr>target_column = ustr ''AETERM'', filter_value = []\<rparr>"
proof -
  obtain v where m: "mock_query self question = Inr (''AETERM'', v)" and v: "\<forall>c \<in> set v. is_space c"
    using mock_query_spaces[OF assms(1)] by blast
  have p: "parse_question repr self question =
    validate repr question
      (JObj [(ustr ''target_column'', JStr (ustr ''AETERM'')), (ustr ''filter_value'', JStr (ustr v))])"
    using assms(2) m by (rule parse_question_mock)
  have ne: "ustr ''target_column'' \<noteq> ustr ''filter_value''" by (simp add: ustr_inject)
  have g: "dict_get [(ustr ''target_column'', JStr (ustr ''AETERM'')), (ustr ''filter_value'', JStr (ustr v))]
             (ustr ''target_column'') (JStr []) = JStr (ustr ''AETERM'')"
    "dict_get [(ustr ''target_column'', JStr (ustr ''AETERM'')), (ustr ''filter_value'', JStr (ustr v))]
             (ustr ''filter_value'') (JStr []) = JStr (ustr v)"
    using ne by (simp_all add: dict_get_def)
  have s1: "ustrip (ustr ''AETERM'') = ustr ''AETERM''" by (simp only: ustrip_ustr strip_AETERM)
  have s2: "ustrip (ustr v) = []" by (simp only: ustrip_ustr strip_spaces[OF v]) (simp add: ustr_def)
  have mem: "ustr ''AETERM'' \<in> set (map ustr MAPPABLE_COLS)" by (simp only: ustr_mappable_cols) simp
  have nu: "ustr ''AETERM'' \<noteq> ustr ''USUBJID''" using ustr_names_distinct(1) by simp
  show ?thesis
    unfolding p validate_def
    by (simp only: g py_str.simps json.case s1 s2 Let_def mem nu not_True_eq_False if_False simp_thms)
qed

text \<open>
  Witness for C10: the question of two spaces.
\<close>

theorem parse_question_blank_witness:
  "is_space (CHR '' '') \<and> \<not> use_llm agent_mock \<and>
   parse_question repr_unused agent_mock ''  '' =
     Inr \<lparr>target_column = ustr ''AETERM'', filter_value = []\<rparr>"
proof -
  have h1: "\<forall>c \<in> set ''  ''. is_space c" by (simp add: is_space_def)
  have h2: "\<not> use_llm agent_mock" by (simp add: agent_mock_def init_def)
  have h3: "is_space (CHR '' '')" by (simp add: is_space_def)
  show ?thesis using h2 h3 parse_question_blank[OF h1 h2] by simp
qed

end
